theory Spec2Isabelle
  imports Main "HOL-Library.Word"
begin

section \<open>Camera firmware: shared data\<close>

text \<open>
  The repository holds three revisions of one ESP32-CAM firmware: \<^verbatim>\<open>src/main.cpp\<close> (v2.1),
  \<^verbatim>\<open>src/unnamed/part_001\<close> (v2) and \<^verbatim>\<open>src/unnamed/part_000\<close> (v2.3). Definitions without
  a suffix embed \<^verbatim>\<open>main.cpp\<close>; the suffix \<open>_v2\<close> marks \<^verbatim>\<open>part_001\<close> and \<open>_v23\<close> marks
  \<^verbatim>\<open>part_000\<close> where the revisions differ.

  \<open>uint32_t\<close> is \<open>32 word\<close>: \<open>millis()\<close> readings, counters and their differences wrap
  around. A byte is a \<open>char\<close>, so that the text headers and the JPEG payload of a file
  are one list.
\<close>

type_synonym u32 = "32 word"
type_synonym bytes = "char list"

definition DEBOUNCE_MS :: u32 where
  "DEBOUNCE_MS = 50"

definition LONG_PRESS_MS :: u32 where
  "LONG_PRESS_MS = 800"

definition LOG_CAP :: nat where
  "LOG_CAP = 320"

definition LOG_LEN :: nat where
  "LOG_LEN = 220"

definition WIFI_CHECK_INTERVAL_MS :: u32 where
  "WIFI_CHECK_INTERVAL_MS = 10000"

definition WIFI_RECONNECT_DELAY_MS :: u32 where
  "WIFI_RECONNECT_DELAY_MS = 30000"

subsection \<open>printf conversions\<close>

definition digit_char :: "nat \<Rightarrow> char" where
  "digit_char d = ''0123456789'' ! (d mod 10)"

text \<open>\<open>%u\<close>: the decimal digits of an unsigned number, most significant first.\<close>

fun fmt_u :: "nat \<Rightarrow> string" where
  "fmt_u n = (if n < 10 then [digit_char n] else fmt_u (n div 10) @ [digit_char (n mod 10)])"

declare fmt_u.simps [simp del]

text \<open>\<open>%04u\<close>: the same, padded on the left with zeros to four characters.\<close>

definition fmt_04u :: "nat \<Rightarrow> string" where
  "fmt_04u n = replicate (4 - length (fmt_u n)) (CHR ''0'') @ fmt_u n"

text \<open>\<open>snprintf(buf, size, ...)\<close> with \<open>size = n\<close> keeps at most \<open>n - 1\<close> characters.\<close>

definition snprintf :: "nat \<Rightarrow> string \<Rightarrow> string" where
  "snprintf n s = take (n - 1) s"

subsection \<open>Camera frames, effects and the device state\<close>

text \<open>\<open>camera_fb_t\<close>: \<open>fb->len\<close> is the length of \<open>buf\<close>.\<close>

record camera_fb =
  buf :: bytes
  width :: nat
  height :: nat

definition len :: "camera_fb \<Rightarrow> nat" where
  "len fb = length (buf fb)"

text \<open>
  An argument of a \<open>log_pushf\<close> call, before \<open>vsnprintf\<close> renders it. The firmware computes
  its rates in single-precision \<open>float\<close>; the model keeps such an argument as the quotient
  it is computed from (\<open>FQuot a b\<close> stands for \<open>a / b\<close>) and does not evaluate it.
\<close>

datatype arg = U u32 | N nat | S string | FQuot nat nat | FZero

text \<open>
  What a function does to the hardware and to its caller, in program order:
  \<open>esp_camera_fb_get\<close>, \<open>esp_camera_fb_return\<close>, the two sensor configurations, the flash
  LED, \<open>delay\<close>/\<open>vTaskDelay\<close>, a \<open>log_pushf\<close> call with its format and arguments, and the
  HTTP responses of the request handlers, and the two calls of the reconnect path
  (\<open>WiFi.disconnect(true)\<close>, \<open>connect_wifi_dual()\<close>).
\<close>

datatype effect =
    CamGet
  | CamReturn
  | SetCaptureMode
  | SetStreamMode
  | Flash bool
  | Delay nat
  | LogPushf string "arg list"
  | HttpSendImage bytes
  | HttpSend500
  | HttpSendJson string
  | WifiDisconnect
  | ConnectWifiDual

record device =
  button_pressed :: bool
  button_press_time :: u32
  button_release_time :: u32
  button_event_pending :: bool
  is_long_press :: bool
  is_recording :: bool
  recording_start_ms :: u32
  current_video_path :: string
  video_file :: "string option"
  video_frame_count :: u32
  sd_available :: bool
  photo_counter :: u32
  video_counter :: u32
  eyetrack_counter :: u32
  eyetrack_captures :: u32
  eyetrack_triggers :: u32
  last_rec_log :: u32
  sd_files :: "string \<rightharpoonup> bytes"
  trace :: "effect list"

text \<open>
  \<open>video_file\<close> is the \<open>File\<close> handle \<open>g_video_file\<close>: \<open>None\<close> when it tests false
  (never opened, open failed, or closed), \<open>Some path\<close> when it is open on \<open>path\<close>.
  \<open>sd_files\<close> is the content of the card.
\<close>

definition emit :: "effect \<Rightarrow> device \<Rightarrow> device" where
  "emit e s = s\<lparr>trace := trace s @ [e]\<rparr>"

text \<open>
  A \<open>log_pushf\<close> call made by a device operation is recorded in the trace with its format
  and arguments. What \<open>log_pushf\<close> does to the ring buffer is modelled on its own below.
\<close>

definition log_call :: "string \<Rightarrow> arg list \<Rightarrow> device \<Rightarrow> device" where
  "log_call fmt args s = emit (LogPushf fmt args) s"

text \<open>The state after boot, before \<open>init_sd_card\<close> has run.\<close>

definition boot :: device where
  "boot = \<lparr>button_pressed = False, button_press_time = 0, button_release_time = 0,
     button_event_pending = False, is_long_press = False, is_recording = False,
     recording_start_ms = 0, current_video_path = [], video_file = None,
     video_frame_count = 0, sd_available = False, photo_counter = 0, video_counter = 0,
     eyetrack_counter = 0, eyetrack_captures = 0, eyetrack_triggers = 0,
     last_rec_log = 0, sd_files = Map.empty, trace = []\<rparr>"

subsection \<open>The card\<close>

text \<open>
  \<open>SD_MMC.open(path, FILE_WRITE)\<close> creates the file or truncates it. Whether it succeeds
  is decided by the card, so it is an input (\<open>ok\<close>).
\<close>

definition sd_open_write :: "bool \<Rightarrow> string \<Rightarrow> device \<Rightarrow> device" where
  "sd_open_write ok path s = (if ok then s\<lparr>sd_files := (sd_files s)(path \<mapsto> [])\<rparr> else s)"

text \<open>
  \<open>file.write(data, n)\<close> appends the bytes the card accepts and returns their number.
  How many it accepts is an input (\<open>accepted\<close>); a full card accepts fewer than asked.
\<close>

definition file_write :: "nat \<Rightarrow> string \<Rightarrow> bytes \<Rightarrow> device \<Rightarrow> device" where
  "file_write accepted path data s =
     s\<lparr>sd_files := (sd_files s)(path \<mapsto>
         (case sd_files s path of None \<Rightarrow> [] | Some old \<Rightarrow> old) @ take accepted data)\<rparr>"

definition written :: "nat \<Rightarrow> bytes \<Rightarrow> nat" where
  "written accepted data = min accepted (length data)"

section \<open>Storage operations\<close>

text \<open>
  \<open>save_photo_to_sd(fb, out_filename, out_len)\<close> with \<open>out_len = 64\<close> at every call site.
  \<open>fb\<close> is a pointer and may be null. Returns the result and the file name written to
  \<open>out_filename\<close> (empty when the buffer was not touched).
\<close>

definition save_photo_to_sd ::
  "camera_fb option \<Rightarrow> bool \<Rightarrow> nat \<Rightarrow> device \<Rightarrow> (bool \<times> string) \<times> device" where
  "save_photo_to_sd fbp open_ok accepted s =
     (case fbp of
        None \<Rightarrow> ((False, []), s)
      | Some fb \<Rightarrow>
          if \<not> sd_available s then ((False, []), s)
          else
            let out_filename = snprintf 64 (''/photos/IMG_'' @ fmt_04u (unat (photo_counter s)) @ ''.jpg'');
                s1 = s\<lparr>photo_counter := photo_counter s + 1\<rparr>;
                s2 = sd_open_write open_ok out_filename s1
            in if \<not> open_ok
               then ((False, out_filename), log_call ''[sd] create failed: %s'' [S out_filename] s2)
               else
                 let s3 = file_write accepted out_filename (buf fb) s2
                 in if written accepted (buf fb) \<noteq> len fb
                    then ((False, out_filename),
                          log_call ''[sd] write error: %u/%u'' [N (written accepted (buf fb)), N (len fb)] s3)
                    else ((True, out_filename), s3))"

text \<open>The v2 revision logs the successful save as well.\<close>

definition save_photo_to_sd_v2 ::
  "camera_fb option \<Rightarrow> bool \<Rightarrow> nat \<Rightarrow> device \<Rightarrow> (bool \<times> string) \<times> device" where
  "save_photo_to_sd_v2 fbp open_ok accepted s =
     (case fbp of
        None \<Rightarrow> ((False, []), s)
      | Some fb \<Rightarrow>
          if \<not> sd_available s then ((False, []), s)
          else
            let out_filename = snprintf 64 (''/photos/IMG_'' @ fmt_04u (unat (photo_counter s)) @ ''.jpg'');
                s1 = s\<lparr>photo_counter := photo_counter s + 1\<rparr>;
                s2 = sd_open_write open_ok out_filename s1
            in if \<not> open_ok
               then ((False, out_filename), log_call ''[sd] failed to create %s'' [S out_filename] s2)
               else
                 let s3 = file_write accepted out_filename (buf fb) s2
                 in if written accepted (buf fb) \<noteq> len fb
                    then ((False, out_filename),
                          log_call ''[sd] write error: %u/%u bytes'' [N (written accepted (buf fb)), N (len fb)] s3)
                    else ((True, out_filename),
                          log_call ''[sd] saved %s (%u bytes)'' [S out_filename, N (len fb)] s3))"

text \<open>
  \<open>start_video_recording()\<close>. Inputs: whether the card opens the file, and the \<open>millis()\<close>
  reading taken after it did.
\<close>

definition start_video_recording :: "bool \<Rightarrow> u32 \<Rightarrow> device \<Rightarrow> bool \<times> device" where
  "start_video_recording open_ok now s =
     (if \<not> sd_available s \<or> is_recording s then (False, s)
      else
        let path = snprintf 64 (''/videos/VID_'' @ fmt_04u (unat (video_counter s)) @ ''.mjpeg'');
            s1 = s\<lparr>current_video_path := path, video_counter := video_counter s + 1\<rparr>;
            s2 = (sd_open_write open_ok path s1)\<lparr>video_file := (if open_ok then Some path else None)\<rparr>
        in if \<not> open_ok then (False, log_call ''[sd] video create failed'' [] s2)
           else (True, log_call ''[rec] started: %s'' [S path]
                   (s2\<lparr>is_recording := True, recording_start_ms := now, video_frame_count := 0\<rparr>)))"

definition start_video_recording_v2 :: "bool \<Rightarrow> u32 \<Rightarrow> device \<Rightarrow> bool \<times> device" where
  "start_video_recording_v2 open_ok now s =
     (if \<not> sd_available s \<or> is_recording s then (False, s)
      else
        let path = snprintf 64 (''/videos/VID_'' @ fmt_04u (unat (video_counter s)) @ ''.mjpeg'');
            s1 = s\<lparr>current_video_path := path, video_counter := video_counter s + 1\<rparr>;
            s2 = (sd_open_write open_ok path s1)\<lparr>video_file := (if open_ok then Some path else None)\<rparr>
        in if \<not> open_ok then (False, log_call ''[sd] failed to create video file'' [] s2)
           else (True, log_call ''[rec] started: %s'' [S path]
                   (s2\<lparr>is_recording := True, recording_start_ms := now, video_frame_count := 0\<rparr>)))"

text \<open>
  The rate argument of the summary line:
  \<open>(duration_ms > 0) ? (g_video_frame_count * 1000.0f / duration_ms) : 0\<close>.
\<close>

definition fps_arg :: "u32 \<Rightarrow> u32 \<Rightarrow> arg" where
  "fps_arg frames duration_ms =
     (if duration_ms > 0 then FQuot (unat frames * 1000) (unat duration_ms) else FZero)"

text \<open>\<open>stop_video_recording()\<close>; \<open>now\<close> is its \<open>millis()\<close> reading.\<close>

definition stop_video_recording :: "u32 \<Rightarrow> device \<Rightarrow> device" where
  "stop_video_recording now s =
     (if \<not> is_recording s then s
      else
        let s1 = s\<lparr>video_file := None\<rparr>;
            duration_ms = now - recording_start_ms s1;
            s2 = log_call ''[rec] stopped: %u frames, %.1fs, %.1f fps''
                   [U (video_frame_count s1), FQuot (unat duration_ms) 1000,
                    fps_arg (video_frame_count s1) duration_ms] s1
        in s2\<lparr>is_recording := False, video_frame_count := 0\<rparr>)"

text \<open>The v2 revision also empties the path.\<close>

definition stop_video_recording_v2 :: "u32 \<Rightarrow> device \<Rightarrow> device" where
  "stop_video_recording_v2 now s =
     (if \<not> is_recording s then s
      else
        let s1 = s\<lparr>video_file := None\<rparr>;
            duration_ms = now - recording_start_ms s1;
            s2 = log_call ''[rec] stopped: %u frames, %.1fs, %.1f fps''
                   [U (video_frame_count s1), FQuot (unat duration_ms) 1000,
                    fps_arg (video_frame_count s1) duration_ms] s1
        in s2\<lparr>is_recording := False, video_frame_count := 0, current_video_path := []\<rparr>)"

text \<open>
  The v2.3 revision clears the flag before it reads the clock, logs the path, the frame
  count, the rate and the duration, and leaves the frame counter as it is.
\<close>

definition stop_video_recording_v23 :: "u32 \<Rightarrow> device \<Rightarrow> device" where
  "stop_video_recording_v23 now s =
     (if \<not> is_recording s then s
      else
        let s1 = s\<lparr>video_file := None, is_recording := False\<rparr>;
            duration_ms = now - recording_start_ms s1
        in log_call ''[rec] stopped: %s %u frames %.1ffps %ums''
             [S (current_video_path s1), U (video_frame_count s1),
              fps_arg (video_frame_count s1) duration_ms, U duration_ms] s1)"

text \<open>
  \<open>write_video_frame(fb)\<close>, called with a frame that is not null. The three numbers are
  what the card accepts of the three writes, whose results the code does not read.
  The header has at most 39 characters, so the 64-byte buffer never cuts it.
\<close>

definition CRLF :: string where
  "CRLF = [CHR 0x0D, CHR 0x0A]"

definition frame_header :: "nat \<Rightarrow> string" where
  "frame_header n = snprintf 64 (''--frame'' @ CRLF @ ''Content-Length: '' @ fmt_u n @ CRLF @ CRLF)"

definition write_video_frame :: "camera_fb \<Rightarrow> nat \<times> nat \<times> nat \<Rightarrow> device \<Rightarrow> bool \<times> device" where
  "write_video_frame fb acc s =
     (case video_file s of
        None \<Rightarrow> (False, s)
      | Some path \<Rightarrow>
          if \<not> is_recording s then (False, s)
          else
            let (a1, a2, a3) = acc;
                s1 = file_write a1 path (frame_header (len fb)) s;
                s2 = file_write a2 path (buf fb) s1;
                s3 = file_write a3 path CRLF s2
            in (True, s3\<lparr>video_frame_count := video_frame_count s3 + 1\<rparr>))"

text \<open>The v2.3 revision writes a fixed boundary with the content type and no length.\<close>

definition boundary_v23 :: string where
  "boundary_v23 = ''--frame'' @ CRLF @ ''Content-Type: image/jpeg'' @ CRLF @ CRLF"

definition write_video_frame_v23 :: "camera_fb \<Rightarrow> nat \<times> nat \<times> nat \<Rightarrow> device \<Rightarrow> bool \<times> device" where
  "write_video_frame_v23 fb acc s =
     (case video_file s of
        None \<Rightarrow> (False, s)
      | Some path \<Rightarrow>
          if \<not> is_recording s then (False, s)
          else
            let (a1, a2, a3) = acc;
                s1 = file_write a1 path boundary_v23 s;
                s2 = file_write a2 path (buf fb) s1;
                s3 = file_write a3 path CRLF s2
            in (True, s3\<lparr>video_frame_count := video_frame_count s3 + 1\<rparr>))"

section \<open>The button\<close>

text \<open>
  \<open>button_isr()\<close>: \<open>now\<close> is its \<open>millis()\<close> reading and \<open>pressed\<close> the pin level it reads
  (\<open>digitalRead(BUTTON_PIN) == LOW\<close>).
\<close>

definition button_isr :: "u32 \<Rightarrow> bool \<Rightarrow> device \<Rightarrow> device" where
  "button_isr now pressed s =
     (if pressed \<and> \<not> button_pressed s then
        (if now - button_release_time s > DEBOUNCE_MS
         then s\<lparr>button_pressed := True, button_press_time := now\<rparr>
         else s)
      else if \<not> pressed \<and> button_pressed s then
        s\<lparr>button_pressed := False, button_release_time := now, button_event_pending := True,
          is_long_press := (now - button_press_time s \<ge> LONG_PRESS_MS)\<rparr>
      else s)"


text \<open>The button fields that only the interrupt handler writes.\<close>

definition button_view :: "device \<Rightarrow> bool \<times> u32 \<times> u32 \<times> bool" where
  "button_view s = (button_pressed s, button_press_time s, button_release_time s, is_long_press s)"

text \<open>
  What one call of \<open>process_button_events()\<close> reads from outside: the clock at each
  \<open>millis()\<close> call, the frames \<open>esp_camera_fb_get\<close> returns (\<open>None\<close> for a null pointer),
  and what the card does.
\<close>

record poll_env =
  t_hold :: u32
  video_open_ok :: bool
  t_start :: u32
  t_stop :: u32
  fb_stale :: "camera_fb option"
  fb_photo :: "camera_fb option"
  photo_open_ok :: bool
  photo_accepted :: nat
  fb_rec :: "camera_fb option"
  rec_accepted :: "nat \<times> nat \<times> nat"
  t_log1 :: u32
  t_log2 :: u32
  t_log3 :: u32

definition set_flash :: "bool \<Rightarrow> device \<Rightarrow> device" where
  "set_flash on s = emit (Flash on) s"

definition delay :: "nat \<Rightarrow> device \<Rightarrow> device" where
  "delay ms s = emit (Delay ms) s"

definition set_capture_mode :: "device \<Rightarrow> device" where
  "set_capture_mode s = emit SetCaptureMode s"

definition set_stream_mode :: "device \<Rightarrow> device" where
  "set_stream_mode s = emit SetStreamMode s"

definition esp_camera_fb_get :: "device \<Rightarrow> device" where
  "esp_camera_fb_get s = emit CamGet s"

definition esp_camera_fb_return :: "device \<Rightarrow> device" where
  "esp_camera_fb_return s = emit CamReturn s"

text \<open>
  The four blocks of \<open>process_button_events()\<close>, in the order of the source, as one call
  runs them when no interrupt arrives during it. \<open>start_action\<close> and \<open>stop_action\<close> are the
  bodies of the first two \<open>if\<close> statements.
\<close>

definition start_action :: "poll_env \<Rightarrow> device \<Rightarrow> device" where
  "start_action e s =
     (let s1 = log_call ''[btn] long press - recording'' [] s;
          (ok, s2) = start_video_recording (video_open_ok e) (t_start e) s1
      in if ok then set_flash False (delay 100 (set_flash True s2)) else s2)"

definition long_press_start :: "poll_env \<Rightarrow> device \<Rightarrow> device" where
  "long_press_start e s =
     (if button_pressed s \<and> \<not> is_recording s then
        (if t_hold e - button_press_time s \<ge> LONG_PRESS_MS then start_action e s else s)
      else s)"

definition stop_action :: "poll_env \<Rightarrow> device \<Rightarrow> device" where
  "stop_action e s =
     (set_flash False \<circ> delay 100 \<circ> set_flash True \<circ> delay 100 \<circ>
      set_flash False \<circ> delay 100 \<circ> set_flash True) (stop_video_recording (t_stop e) s)"

definition stop_on_release :: "poll_env \<Rightarrow> device \<Rightarrow> device" where
  "stop_on_release e s =
     (if is_recording s \<and> \<not> button_pressed s then stop_action e s else s)"

definition take_photo :: "poll_env \<Rightarrow> device \<Rightarrow> device" where
  "take_photo e s =
     (let s1 = log_call ''[btn] short press - capture'' [] s;
          s2 = delay 20 (set_capture_mode s1);
          s3 = esp_camera_fb_get s2;
          s4 = (if fb_stale e \<noteq> None then esp_camera_fb_return s3 else s3);
          s5 = esp_camera_fb_get s4;
          s6 = (case fb_photo e of
                  None \<Rightarrow> s5
                | Some fb \<Rightarrow>
                    let ((saved, filename), s') =
                          save_photo_to_sd (Some fb) (photo_open_ok e) (photo_accepted e) s5;
                        s'' = (if saved
                               then set_flash False (delay 50 (set_flash True
                                      (log_call ''[btn] saved: %s (%uB)'' [S filename, N (len fb)] s')))
                               else s')
                    in esp_camera_fb_return s'')
      in set_stream_mode s6)"

definition consume_event :: "poll_env \<Rightarrow> device \<Rightarrow> device" where
  "consume_event e s =
     (if button_event_pending s then
        let s1 = s\<lparr>button_event_pending := False\<rparr>;
            press_duration = button_release_time s1 - button_press_time s1
        in if press_duration < LONG_PRESS_MS \<and> \<not> is_recording s1 then take_photo e s1 else s1
      else s)"

definition recording_loop :: "poll_env \<Rightarrow> device \<Rightarrow> device" where
  "recording_loop e s =
     (if is_recording s then
        let s1 = esp_camera_fb_get s;
            s2 = (case fb_rec e of
                    None \<Rightarrow> s1
                  | Some fb \<Rightarrow> esp_camera_fb_return (snd (write_video_frame fb (rec_accepted e) s1)))
        in if t_log1 e - last_rec_log s2 > 2000
           then log_call ''[rec] %us, %u frames''
                  [U ((t_log3 e - recording_start_ms s2) div 1000), U (video_frame_count s2)]
                  (s2\<lparr>last_rec_log := t_log2 e\<rparr>)
           else s2
      else s)"

definition process_button_events :: "poll_env \<Rightarrow> device \<Rightarrow> device" where
  "process_button_events e s =
     recording_loop e (consume_event e (stop_on_release e (long_press_start e s)))"

subsection \<open>The call, statement by statement, with the interrupt in between\<close>

text \<open>
  \<open>button_isr\<close> is attached to the pin with \<open>attachInterrupt(..., CHANGE)\<close> and runs
  whenever an edge arrives, also in the middle of a call of \<open>process_button_events()\<close>.
  The call is therefore cut at every access to the button variables the interrupt
  writes: each test that reads one of them, the statement that clears the pending flag
  and each of the two reads that make up \<open>press_duration\<close> (taken here as the release
  time first, then the press time; the language does not fix the order, and nothing
  proved below depends on it) is a step of its own, and so are the four actions between them
  (starting and stopping the recording, taking the photo, the recording loop), which
  neither read nor write any of these variables. The interrupt may run between any two
  steps, which includes the time between two calls. An interrupt that arrives during
  one of the four actions, in their delays, frame grabs and card writes, leaves the
  same state as one that arrives just before or just after the action, since the
  handler commutes with the action and with every statement in it (\<open>isr_commutes\<close>,
  \<open>isr_commutes_statement\<close> and \<open>interrupted_action\<close> below); in a run it is written
  as an edge before the step of the action.

  \<open>locals\<close> holds what the call keeps between steps: the outcomes of the three tests,
  the two local variables of the source and the release time read for the second.
\<close>

record locals =
  cond_hold :: bool
  hold_time :: u32
  cond_release :: bool
  cond_pending :: bool
  release_read :: u32
  press_duration :: u32

datatype loc =
    L_test_hold
  | L_hold_time
  | L_start
  | L_test_release
  | L_stop
  | L_test_pending
  | L_clear
  | L_read_release
  | L_duration
  | L_photo
  | L_record

fun next_loc :: "loc \<Rightarrow> loc" where
  "next_loc L_test_hold = L_hold_time"
| "next_loc L_hold_time = L_start"
| "next_loc L_start = L_test_release"
| "next_loc L_test_release = L_stop"
| "next_loc L_stop = L_test_pending"
| "next_loc L_test_pending = L_clear"
| "next_loc L_clear = L_read_release"
| "next_loc L_read_release = L_duration"
| "next_loc L_duration = L_photo"
| "next_loc L_photo = L_record"
| "next_loc L_record = L_test_hold"

fun micro :: "loc \<Rightarrow> poll_env \<Rightarrow> locals \<Rightarrow> device \<Rightarrow> locals \<times> device" where
  "micro L_test_hold e v s = (v\<lparr>cond_hold := button_pressed s \<and> \<not> is_recording s\<rparr>, s)"
| "micro L_hold_time e v s =
     (if cond_hold v then v\<lparr>hold_time := t_hold e - button_press_time s\<rparr> else v, s)"
| "micro L_start e v s =
     (v, if cond_hold v \<and> hold_time v \<ge> LONG_PRESS_MS then start_action e s else s)"
| "micro L_test_release e v s = (v\<lparr>cond_release := is_recording s \<and> \<not> button_pressed s\<rparr>, s)"
| "micro L_stop e v s = (v, if cond_release v then stop_action e s else s)"
| "micro L_test_pending e v s = (v\<lparr>cond_pending := button_event_pending s\<rparr>, s)"
| "micro L_clear e v s = (v, if cond_pending v then s\<lparr>button_event_pending := False\<rparr> else s)"
| "micro L_read_release e v s =
     (if cond_pending v then v\<lparr>release_read := button_release_time s\<rparr> else v, s)"
| "micro L_duration e v s =
     (if cond_pending v
      then v\<lparr>press_duration := release_read v - button_press_time s\<rparr> else v, s)"
| "micro L_photo e v s =
     (v, if cond_pending v \<and> press_duration v < LONG_PRESS_MS \<and> \<not> is_recording s
         then take_photo e s else s)"
| "micro L_record e v s = (v, recording_loop e s)"

text \<open>How many steps come before the test of the pending flag is the next one to run.\<close>

fun to_test :: "loc \<Rightarrow> nat" where
  "to_test L_test_hold = 5"
| "to_test L_hold_time = 4"
| "to_test L_start = 3"
| "to_test L_test_release = 2"
| "to_test L_stop = 1"
| "to_test L_test_pending = 0"
| "to_test L_clear = 10"
| "to_test L_read_release = 9"
| "to_test L_duration = 8"
| "to_test L_photo = 7"
| "to_test L_record = 6"

text \<open>
  A run of the button: pin edges handled by the interrupt and steps of the polling
  loop, in the order they happen. Beside the device, the place of the loop in its call
  and its locals, the run counts how often the interrupt raised the pending flag and
  how often the loop cleared it after finding it raised.
\<close>

datatype event = Edge u32 bool | Tick poll_env

record machine =
  dev :: device
  pc :: loc
  vars :: locals
  raised :: nat
  consumed :: nat

fun step :: "event \<Rightarrow> machine \<Rightarrow> machine" where
  "step (Edge now pressed) m =
     m\<lparr>dev := button_isr now pressed (dev m),
       raised := raised m + (if \<not> pressed \<and> button_pressed (dev m) then 1 else 0)\<rparr>"
| "step (Tick e) m =
     m\<lparr>dev := snd (micro (pc m) e (vars m) (dev m)),
       vars := fst (micro (pc m) e (vars m) (dev m)),
       pc := next_loc (pc m),
       consumed := consumed m + (if pc m = L_clear \<and> cond_pending (vars m) then 1 else 0)\<rparr>"

definition run :: "event list \<Rightarrow> machine \<Rightarrow> machine" where
  "run evs m = fold step evs m"

text \<open>
  One press and its release, with the steps the loop makes during the hold and after
  the release, before the next press.
\<close>

record cycle =
  press_at :: u32
  ticks_held :: "poll_env list"
  release_at :: u32
  ticks_after :: "poll_env list"

definition cycle_events :: "cycle \<Rightarrow> event list" where
  "cycle_events c =
     [Edge (press_at c) True] @ map Tick (ticks_held c) @
     [Edge (release_at c) False] @ map Tick (ticks_after c)"

text \<open>
  The edges of a run of cycles are spaced by more than the debounce interval, as the
  32-bit clock measures it; \<open>prev\<close> is the time of the edge before the first press.
\<close>

fun spaced :: "u32 \<Rightarrow> cycle list \<Rightarrow> bool" where
  "spaced prev [] = True"
| "spaced prev (c # cs) =
     (press_at c - prev > DEBOUNCE_MS \<and> release_at c - press_at c > DEBOUNCE_MS \<and>
      spaced (release_at c) cs)"

text \<open>The same with "at least" in place of "more than", as the specification words it.\<close>

fun spaced_at_least :: "u32 \<Rightarrow> cycle list \<Rightarrow> bool" where
  "spaced_at_least prev [] = True"
| "spaced_at_least prev (c # cs) =
     (press_at c - prev \<ge> DEBOUNCE_MS \<and> release_at c - press_at c \<ge> DEBOUNCE_MS \<and>
      spaced_at_least (release_at c) cs)"

text \<open>
  After each release and before the next press the loop gets to its test of the
  pending flag and to the statement after it; \<open>p\<close> is the place of the loop at the
  first press.
\<close>

fun served :: "loc \<Rightarrow> cycle list \<Rightarrow> bool" where
  "served p [] = True"
| "served p (c # cs) =
     (to_test ((next_loc ^^ length (ticks_held c)) p) + 2 \<le> length (ticks_after c) \<and>
      served ((next_loc ^^ (length (ticks_held c) + length (ticks_after c))) p) cs)"

text \<open>
  A step at clock reading \<open>t\<close> during which the camera returns no frame and the card
  refuses every request; a cycle in which the loop is not scheduled during the hold and
  makes \<open>n\<close> such steps after the release; and the machine after boot, at the start of
  a call.
\<close>

definition quiet_poll :: "u32 \<Rightarrow> poll_env" where
  "quiet_poll t = \<lparr>t_hold = t, video_open_ok = False, t_start = t, t_stop = t, fb_stale = None,
     fb_photo = None, photo_open_ok = False, photo_accepted = 0, fb_rec = None,
     rec_accepted = (0, 0, 0), t_log1 = t, t_log2 = t, t_log3 = t\<rparr>"

definition press_release :: "u32 \<Rightarrow> u32 \<Rightarrow> nat \<Rightarrow> cycle" where
  "press_release tp tr n = \<lparr>press_at = tp, ticks_held = [], release_at = tr,
     ticks_after = replicate n (quiet_poll (tr + 1))\<rparr>"

definition no_locals :: locals where
  "no_locals = \<lparr>cond_hold = False, hold_time = 0, cond_release = False, cond_pending = False,
     release_read = 0, press_duration = 0\<rparr>"

definition fresh :: machine where
  "fresh = \<lparr>dev = boot, pc = L_test_hold, vars = no_locals, raised = 0, consumed = 0\<rparr>"

text \<open>
  Two conditions on a machine. It is \<open>quiet\<close> when the pending flag is clear and the
  loop is not about to clear it on an earlier reading; it is \<open>waiting\<close> when the flag is
  raised and the loop has not read it yet.
\<close>

definition quiet :: "machine \<Rightarrow> bool" where
  "quiet m = (\<not> button_event_pending (dev m) \<and> (pc m = L_clear \<longrightarrow> \<not> cond_pending (vars m)))"

definition waiting :: "machine \<Rightarrow> bool" where
  "waiting m = (button_event_pending (dev m) \<and> (pc m = L_clear \<longrightarrow> \<not> cond_pending (vars m)))"

text \<open>Writing the five button variables at once, as the interrupt handler may.\<close>

definition set_button :: "bool \<Rightarrow> u32 \<Rightarrow> u32 \<Rightarrow> bool \<Rightarrow> bool \<Rightarrow> device \<Rightarrow> device" where
  "set_button p tp tr pend lp s =
     s\<lparr>button_pressed := p, button_press_time := tp, button_release_time := tr,
       button_event_pending := pend, is_long_press := lp\<rparr>"

subsection \<open>An interrupt inside an action\<close>

text \<open>
  To say what an interrupt inside an action is, the four actions are written once more
  as the sequence of their statements. A \<open>prog\<close> is a sequence of calls; a call returns
  a result (a truth value and a file name, of which the rest of the program uses what
  it needs) and the state it leaves. \<open>atomic\<close> runs a program with no interrupt;
  \<open>interrupted sch\<close> runs it with the edges in the first list of \<open>sch\<close> handled before
  its first call, those in the second list before its second call, and so on, the
  edges left over at its end after its last call.
\<close>

datatype prog = Done | Call "device \<Rightarrow> (bool \<times> string) \<times> device" "bool \<times> string \<Rightarrow> prog"

primrec atomic :: "prog \<Rightarrow> device \<Rightarrow> device" where
  "atomic Done s = s"
| "atomic (Call f k) s = atomic (k (fst (f s))) (snd (f s))"

definition handle_edges :: "(u32 \<times> bool) list \<Rightarrow> device \<Rightarrow> device" where
  "handle_edges es s = fold (\<lambda>(now, lvl). button_isr now lvl) es s"

fun interrupted :: "(u32 \<times> bool) list list \<Rightarrow> prog \<Rightarrow> device \<Rightarrow> device" where
  "interrupted [] p s = atomic p s"
| "interrupted (es # sch) Done s = handle_edges (concat (es # sch)) s"
| "interrupted (es # sch) (Call f k) s =
     interrupted sch (k (fst (f (handle_edges es s)))) (snd (f (handle_edges es s)))"

text \<open>A call whose result is not used, and a branch on a condition of the state.\<close>

definition Do :: "(device \<Rightarrow> device) \<Rightarrow> prog \<Rightarrow> prog" where
  "Do f p = Call (\<lambda>s. ((True, []), f s)) (\<lambda>r. p)"

definition Test :: "(device \<Rightarrow> bool) \<Rightarrow> prog \<Rightarrow> prog \<Rightarrow> prog" where
  "Test c p q = Call (\<lambda>s. ((c s, []), s)) (\<lambda>r. if fst r then p else q)"

text \<open>
  A call is \<open>button_free\<close> when the interrupt handler can be moved across it: handled
  before the call or after it, an edge leaves the same state and the call returns the
  same result. A program is \<open>blind\<close> when each of its calls is.
\<close>

definition button_free :: "(device \<Rightarrow> (bool \<times> string) \<times> device) \<Rightarrow> bool" where
  "button_free f =
     (\<forall>now lvl s. f (button_isr now lvl s) = (fst (f s), button_isr now lvl (snd (f s))))"

primrec blind :: "prog \<Rightarrow> bool" where
  "blind Done = True"
| "blind (Call f k) = (button_free f \<and> (\<forall>r. blind (k r)))"

text \<open>
  The actions. The frames the camera returns are inputs, so the tests of the frame
  pointers (\<open>if (fb)\<close>) are made on the input.
\<close>

definition start_action_prog :: "poll_env \<Rightarrow> prog" where
  "start_action_prog e =
     Do (log_call ''[btn] long press - recording'' [])
    (Call (\<lambda>s. ((fst (start_video_recording (video_open_ok e) (t_start e) s), []),
                 snd (start_video_recording (video_open_ok e) (t_start e) s)))
       (\<lambda>r. if fst r then Do (set_flash True) (Do (delay 100) (Do (set_flash False) Done))
             else Done))"

definition stop_action_prog :: "poll_env \<Rightarrow> prog" where
  "stop_action_prog e =
     Do (stop_video_recording (t_stop e))
    (Do (set_flash True) (Do (delay 100) (Do (set_flash False)
    (Do (delay 100)
    (Do (set_flash True) (Do (delay 100) (Do (set_flash False) Done)))))))"

definition take_photo_prog :: "poll_env \<Rightarrow> prog" where
  "take_photo_prog e =
     Do (log_call ''[btn] short press - capture'' [])
    (Do set_capture_mode
    (Do (delay 20)
    (Do esp_camera_fb_get
    ((if fb_stale e \<noteq> None then Do esp_camera_fb_return else (\<lambda>p. p))
    (Do esp_camera_fb_get
    ((case fb_photo e of
        None \<Rightarrow> (\<lambda>p. p)
      | Some fb \<Rightarrow> (\<lambda>p.
          Call (save_photo_to_sd (Some fb) (photo_open_ok e) (photo_accepted e))
            (\<lambda>r. if fst r
                  then Do (log_call ''[btn] saved: %s (%uB)'' [S (snd r), N (len fb)])
                      (Do (set_flash True) (Do (delay 50) (Do (set_flash False)
                      (Do esp_camera_fb_return p))))
                  else Do esp_camera_fb_return p)))
    (Do set_stream_mode Done)))))))"

definition recording_loop_prog :: "poll_env \<Rightarrow> prog" where
  "recording_loop_prog e =
     Test is_recording
       (Do esp_camera_fb_get
       ((case fb_rec e of
           None \<Rightarrow> (\<lambda>p. p)
         | Some fb \<Rightarrow> (\<lambda>p.
             Do (\<lambda>s. snd (write_video_frame fb (rec_accepted e) s)) (Do esp_camera_fb_return p)))
       (Test (\<lambda>s. t_log1 e - last_rec_log s > 2000)
          (Do (\<lambda>s. s\<lparr>last_rec_log := t_log2 e\<rparr>)
          (Do (\<lambda>s. log_call ''[rec] %us, %u frames''
                 [U ((t_log3 e - recording_start_ms s) div 1000), U (video_frame_count s)] s)
           Done))
          Done)))
       Done"

section \<open>HTTP still capture\<close>

datatype esp_err = ESP_OK | ESP_FAIL

text \<open>
  \<open>capture_handler(req)\<close>: \<open>fb1\<close> and \<open>fb2\<close> are what the two \<open>esp_camera_fb_get\<close> calls
  return, \<open>send\<close> the result of \<open>httpd_resp_send\<close>, \<open>t0\<close> and \<open>t1\<close> the two clock readings.
\<close>

definition capture_handler ::
  "u32 \<Rightarrow> camera_fb option \<Rightarrow> camera_fb option \<Rightarrow> esp_err \<Rightarrow> u32 \<Rightarrow> device \<Rightarrow> esp_err \<times> device" where
  "capture_handler t0 fb1 fb2 send t1 s =
     (let s1 = delay 10 (set_capture_mode s);
          s2 = esp_camera_fb_get s1;
          s3 = (if fb1 \<noteq> None then esp_camera_fb_return s2 else s2);
          s4 = esp_camera_fb_get s3
      in case fb2 of
           None \<Rightarrow> (ESP_FAIL, emit HttpSend500 (set_stream_mode (log_call ''[cap] failed'' [] s4)))
         | Some fb \<Rightarrow>
             let s5 = emit (HttpSendImage (buf fb)) s4;
                 s6 = log_call ''[cap] %ux%u %uB %ums''
                        [N (width fb), N (height fb), N (len fb), U (t1 - t0)] s5
             in (send, set_stream_mode (esp_camera_fb_return s6)))"

text \<open>
  \<open>save_eyetrack_photo\<close> and \<open>eyetrack_capture_handler\<close> of the v2.3 revision. The handler
  always returns \<open>ESP_OK\<close>; its answer is the JSON text.
\<close>

definition save_eyetrack_photo ::
  "camera_fb option \<Rightarrow> bool \<Rightarrow> nat \<Rightarrow> device \<Rightarrow> (bool \<times> string) \<times> device" where
  "save_eyetrack_photo fbp open_ok accepted s =
     (case fbp of
        None \<Rightarrow> ((False, []), s)
      | Some fb \<Rightarrow>
          if \<not> sd_available s then ((False, []), s)
          else
            let out_filename = snprintf 64 (''/eyetrack/EYE_'' @ fmt_04u (unat (eyetrack_counter s)) @ ''.jpg'');
                s1 = s\<lparr>eyetrack_counter := eyetrack_counter s + 1\<rparr>;
                s2 = sd_open_write open_ok out_filename s1
            in if \<not> open_ok
               then ((False, out_filename), log_call ''[eye] create failed: %s'' [S out_filename] s2)
               else
                 let s3 = file_write accepted out_filename (buf fb) s2
                 in if written accepted (buf fb) \<noteq> len fb
                    then ((False, out_filename),
                          log_call ''[eye] write error: %u/%u'' [N (written accepted (buf fb)), N (len fb)] s3)
                    else ((True, out_filename), s3))"

definition set_capture_mode_v23 :: "device \<Rightarrow> device" where
  "set_capture_mode_v23 s = delay 10 (emit SetCaptureMode s)"

definition eyetrack_capture_handler ::
  "camera_fb option \<Rightarrow> camera_fb option \<Rightarrow> bool \<Rightarrow> nat \<Rightarrow> device \<Rightarrow> esp_err \<times> device" where
  \<open>eyetrack_capture_handler fb1 fb2 open_ok accepted s =
     (let s0 = s\<lparr>eyetrack_triggers := eyetrack_triggers s + 1\<rparr>;
          s1 = log_call ''[eye] capture trigger #%u'' [U (eyetrack_triggers s0)] s0
      in if \<not> sd_available s1
         then (ESP_OK, emit (HttpSendJson ''{"success":false,"error":"SD card not available"}'') s1)
         else
           let s2 = esp_camera_fb_get (set_capture_mode_v23 s1);
               s3 = (if fb1 \<noteq> None then esp_camera_fb_return s2 else s2);
               s4 = esp_camera_fb_get s3
           in case fb2 of
                None \<Rightarrow>
                  (ESP_OK, emit (HttpSendJson ''{"success":false,"error":"Camera capture failed"}'')
                     (log_call ''[eye] capture failed - no frame'' [] (set_stream_mode s4)))
              | Some fb \<Rightarrow>
                  let ((saved, filename), s5) = save_eyetrack_photo (Some fb) open_ok accepted s4;
                      s6 = set_stream_mode (esp_camera_fb_return s5)
                  in if saved then
                       let s7 = s6\<lparr>eyetrack_captures := eyetrack_captures s6 + 1\<rparr>;
                           s8 = log_call ''[eye] saved: %s (total=%u)'' [S filename, U (eyetrack_captures s7)] s7;
                           s9 = set_flash False (delay 50 (set_flash True s8))
                       in (ESP_OK, emit (HttpSendJson
                             (snprintf 128 (''{"success":true,"filename":"'' @ filename @ ''","total":'' @
                                fmt_u (unat (eyetrack_captures s9)) @ ''}''))) s9)
                     else (ESP_OK, emit (HttpSendJson ''{"success":false,"error":"Failed to save"}'') s6))\<close>

text \<open>A four-byte frame, and the device with a recording opened at clock reading 1000.\<close>

definition sample_frame :: camera_fb where
  "sample_frame = \<lparr>buf = ''JPEG'', width = 640, height = 480\<rparr>"

definition recording_now :: device where
  "recording_now = snd (start_video_recording True 1000 (boot\<lparr>sd_available := True\<rparr>))"

text \<open>The effects a call added to the trace, and how many of them are frame acquisitions.\<close>

definition added :: "device \<Rightarrow> device \<Rightarrow> effect list" where
  "added s s' = drop (length (trace s)) (trace s')"

definition acquisitions :: "effect list \<Rightarrow> nat" where
  "acquisitions es = length (filter (\<lambda>e. e = CamGet) es)"

section \<open>A recording session and the readers of its file\<close>

text \<open>The record \<open>write_video_frame\<close> writes for one frame when the card accepts all of it.\<close>

definition frame_record :: "camera_fb \<Rightarrow> bytes" where
  "frame_record fb = frame_header (len fb) @ buf fb @ CRLF"

definition frame_record_v23 :: "camera_fb \<Rightarrow> bytes" where
  "frame_record_v23 fb = boundary_v23 @ buf fb @ CRLF"

text \<open>
  The record as the specification words it: the part delimiter, the content type, the
  content length, an empty line, the payload and a line end.
\<close>

definition spec_frame_record :: "bytes \<Rightarrow> bytes" where
  "spec_frame_record payload =
     ''--frame'' @ CRLF @ ''Content-Type: image/jpeg'' @ CRLF @
     ''Content-Length: '' @ fmt_u (length payload) @ CRLF @ CRLF @ payload @ CRLF"

text \<open>Appending frames: one \<open>write_video_frame\<close> call per frame, with what the card accepts.\<close>

fun append_frames :: "(camera_fb \<times> nat \<times> nat \<times> nat) list \<Rightarrow> device \<Rightarrow> device" where
  "append_frames [] s = s"
| "append_frames ((fb, acc) # rest) s = append_frames rest (snd (write_video_frame fb acc s))"

fun append_frames_v23 :: "(camera_fb \<times> nat \<times> nat \<times> nat) list \<Rightarrow> device \<Rightarrow> device" where
  "append_frames_v23 [] s = s"
| "append_frames_v23 ((fb, acc) # rest) s = append_frames_v23 rest (snd (write_video_frame_v23 fb acc s))"

definition record_session ::
  "bool \<Rightarrow> u32 \<Rightarrow> (camera_fb \<times> nat \<times> nat \<times> nat) list \<Rightarrow> u32 \<Rightarrow> device \<Rightarrow> device" where
  "record_session open_ok t0 frames t1 s =
     stop_video_recording t1 (append_frames frames (snd (start_video_recording open_ok t0 s)))"

definition record_session_v23 ::
  "bool \<Rightarrow> u32 \<Rightarrow> (camera_fb \<times> nat \<times> nat \<times> nat) list \<Rightarrow> u32 \<Rightarrow> device \<Rightarrow> device" where
  "record_session_v23 open_ok t0 frames t1 s =
     stop_video_recording_v23 t1 (append_frames_v23 frames (snd (start_video_recording open_ok t0 s)))"

text \<open>The card accepts every byte of the three writes of each frame.\<close>

definition complete_writes :: "(camera_fb \<times> nat \<times> nat \<times> nat) list \<Rightarrow> bool" where
  "complete_writes frames =
     list_all (\<lambda>(fb, a1, a2, a3). length (frame_header (len fb)) \<le> a1 \<and> len fb \<le> a2 \<and> 2 \<le> a3) frames"

definition complete_writes_v23 :: "(camera_fb \<times> nat \<times> nat \<times> nat) list \<Rightarrow> bool" where
  "complete_writes_v23 frames =
     list_all (\<lambda>(fb, a1, a2, a3). length boundary_v23 \<le> a1 \<and> len fb \<le> a2 \<and> 2 \<le> a3) frames"

text \<open>
  A reader that finds each record by its length header alone: it expects the delimiter
  line and \<open>Content-Length: \<close>, reads the decimal number \<open>n\<close>, skips the empty line, takes
  \<open>n\<close> bytes and expects the line end. \<open>read_records\<close> gives the payloads of a whole
  file, \<open>None\<close> when the file is not a sequence of such records. Each record has at
  least one byte, so the length of the file is fuel enough.
\<close>

definition is_digit :: "char \<Rightarrow> bool" where
  "is_digit c = (c \<in> set ''0123456789'')"

definition digit_val :: "char \<Rightarrow> nat" where
  "digit_val c = of_char c - 48"

fun read_u :: "nat \<Rightarrow> bytes \<Rightarrow> nat \<times> bytes" where
  "read_u acc [] = (acc, [])"
| "read_u acc (c # cs) = (if is_digit c then read_u (acc * 10 + digit_val c) cs else (acc, c # cs))"

definition strip_prefix :: "bytes \<Rightarrow> bytes \<Rightarrow> bytes option" where
  "strip_prefix p bs = (if take (length p) bs = p then Some (drop (length p) bs) else None)"

definition read_record :: "bytes \<Rightarrow> (bytes \<times> bytes) option" where
  "read_record bs =
     (case strip_prefix (''--frame'' @ CRLF @ ''Content-Length: '') bs of
        None \<Rightarrow> None
      | Some r1 \<Rightarrow>
          let (n, r2) = read_u 0 r1
          in if length r2 = length r1 then None
             else (case strip_prefix (CRLF @ CRLF) r2 of
                     None \<Rightarrow> None
                   | Some r3 \<Rightarrow>
                       (if length r3 < n then None
                        else (case strip_prefix CRLF (drop n r3) of
                                None \<Rightarrow> None
                              | Some r4 \<Rightarrow> Some (take n r3, r4)))))"

fun read_records_fuel :: "nat \<Rightarrow> bytes \<Rightarrow> bytes list option" where
  "read_records_fuel fuel [] = Some []"
| "read_records_fuel 0 (b # bs) = None"
| "read_records_fuel (Suc fuel) (b # bs) =
     (case read_record (b # bs) of
        None \<Rightarrow> None
      | Some (payload, rest) \<Rightarrow> map_option ((#) payload) (read_records_fuel fuel rest))"

definition read_records :: "bytes \<Rightarrow> bytes list option" where
  "read_records bs = read_records_fuel (length bs) bs"

section \<open>The diagnostic ring buffer\<close>

text \<open>
  \<open>g_log\<close> is the array of \<open>LOG_CAP\<close> slots, each a C string; \<open>g_log_head\<close> is an \<open>int\<close>
  that the code keeps in \<open>0 .. LOG_CAP - 1\<close>.
\<close>

record logbuf =
  g_log :: "string list"
  g_log_seq :: u32
  g_log_head :: nat

text \<open>The buffer as the C runtime zero-initialises it.\<close>

definition log_zero :: logbuf where
  "log_zero = \<lparr>g_log = replicate LOG_CAP [], g_log_seq = 0, g_log_head = 0\<rparr>"

definition log_clear :: "logbuf \<Rightarrow> logbuf" where
  "log_clear lb = lb\<lparr>g_log_seq := 0, g_log_head := 0, g_log := replicate LOG_CAP []\<rparr>"

text \<open>
  \<open>log_pushf(fmt, ...)\<close>, given the text the format and its arguments expand to:
  \<open>vsnprintf\<close> cuts it to the line buffer and \<open>strncpy\<close> copies \<open>LOG_LEN - 1\<close> characters
  into the head slot.
\<close>

definition slot_text :: "string \<Rightarrow> string" where
  "slot_text text = take (LOG_LEN - 1) (snprintf LOG_LEN text)"

definition log_pushf :: "string \<Rightarrow> logbuf \<Rightarrow> logbuf" where
  "log_pushf text lb =
     lb\<lparr>g_log := (g_log lb)[g_log_head lb := slot_text text],
        g_log_head := (g_log_head lb + 1) mod LOG_CAP,
        g_log_seq := g_log_seq lb + 1\<rparr>"

definition log_push_all :: "string list \<Rightarrow> logbuf \<Rightarrow> logbuf" where
  "log_push_all texts lb = fold log_pushf texts lb"

text \<open>\<open>while (idx < 0) idx += LOG_CAP;\<close>\<close>

function wrap_idx :: "int \<Rightarrow> int" where
  "wrap_idx idx = (if idx < 0 then wrap_idx (idx + int LOG_CAP) else idx)"
  by pat_completeness auto
termination
  by (relation "measure (\<lambda>idx. nat (- idx))") (auto simp: LOG_CAP_def)

declare wrap_idx.simps [simp del]

text \<open>
  The copy loop shared by \<open>sse_send_recent\<close> and \<open>events_handler\<close>: \<open>n\<close> slots from \<open>idx\<close>
  on, each sent unless it is empty. A read outside the array is undefined behaviour in
  C; the model answers \<open>None\<close> there.
\<close>

fun send_slots :: "string list \<Rightarrow> int \<Rightarrow> nat \<Rightarrow> string list option" where
  "send_slots slots idx 0 = Some []"
| "send_slots slots idx (Suc n) =
     (if 0 \<le> idx \<and> idx < int (length slots) then
        map_option (\<lambda>rest. (if slots ! nat idx \<noteq> [] then [slots ! nat idx] else []) @ rest)
          (send_slots slots ((idx + 1) mod int LOG_CAP) n)
      else None)"

text \<open>
  \<open>sse_send_recent(req, max_lines)\<close>: the lines it sends, oldest first. The buffer is
  the one it sees when it captures \<open>seq\<close> and \<open>head\<close>; appends during the copy are not
  modelled.
\<close>

definition sse_send_recent :: "int \<Rightarrow> logbuf \<Rightarrow> string list option" where
  "sse_send_recent max_lines lb =
     (let seq = g_log_seq lb;
          head = g_log_head lb;
          count = (if seq < word_of_int max_lines then seq else word_of_int max_lines)
      in if count = 0 then Some []
         else send_slots (g_log lb) (wrap_idx (int head - sint count)) (unat count))"

text \<open>
  One round of the loop of \<open>events_handler\<close>, for a reader that has seen \<open>last_seq\<close>:
  the lines it sends and the sequence number it remembers. A line is sent only after
  an empty chunk went through; when that fails (\<open>alive\<close> is false) the handler returns
  \<open>ESP_FAIL\<close>.
\<close>

datatype tail_result = Delivered "string list" u32 | Disconnected | OutOfRange

definition events_round :: "bool \<Rightarrow> u32 \<Rightarrow> logbuf \<Rightarrow> tail_result" where
  "events_round alive last_seq lb =
     (let seq_now = g_log_seq lb;
          head_now = g_log_head lb
      in if seq_now \<noteq> last_seq then
           let diff0 = seq_now - last_seq;
               diff = (if diff0 > word_of_nat LOG_CAP then word_of_nat LOG_CAP else diff0)
           in case send_slots (g_log lb) (wrap_idx (int head_now - sint diff)) (unat diff) of
                None \<Rightarrow> OutOfRange
              | Some ls \<Rightarrow> if ls \<noteq> [] \<and> \<not> alive then Disconnected else Delivered ls seq_now
         else Delivered [] last_seq)"

text \<open>The v2.3 revision sends the slot before the head and nothing else.\<close>

definition events_round_v23 :: "bool \<Rightarrow> u32 \<Rightarrow> logbuf \<Rightarrow> tail_result" where
  "events_round_v23 alive last_seq lb =
     (if g_log_seq lb \<noteq> last_seq then
        let head = g_log_head lb;
            seq = g_log_seq lb;
            idx = (head + LOG_CAP - 1) mod LOG_CAP
        in if idx < length (g_log lb) then
             (if g_log lb ! idx \<noteq> [] then
                (if alive then Delivered [g_log lb ! idx] seq else Disconnected)
              else Delivered [] seq)
           else OutOfRange
      else Delivered [] last_seq)"

section \<open>The connectivity supervisor\<close>

record wifi =
  last_wifi_check_ms :: u32
  wifi_reconnect_attempts :: u32
  last_reconnect_attempt :: u32
  wtrace :: "effect list"

definition wifi_boot :: wifi where
  "wifi_boot = \<lparr>last_wifi_check_ms = 0, wifi_reconnect_attempts = 0,
     last_reconnect_attempt = 0, wtrace = []\<rparr>"

definition wemit :: "effect \<Rightarrow> wifi \<Rightarrow> wifi" where
  "wemit e w = w\<lparr>wtrace := wtrace w @ [e]\<rparr>"

text \<open>
  \<open>check_and_reconnect_wifi()\<close> of the v2.3 revision: \<open>now\<close> is its \<open>millis()\<close> reading,
  \<open>connected\<close> what \<open>WiFi.status() == WL_CONNECTED\<close> gives at the health check and
  \<open>connected_after\<close> what it gives after \<open>connect_wifi_dual()\<close>.
\<close>

definition check_and_reconnect_wifi :: "u32 \<Rightarrow> bool \<Rightarrow> bool \<Rightarrow> wifi \<Rightarrow> wifi" where
  "check_and_reconnect_wifi now connected connected_after w =
     (if now - last_wifi_check_ms w < WIFI_CHECK_INTERVAL_MS then w
      else
        let w1 = w\<lparr>last_wifi_check_ms := now\<rparr>
        in if connected then
             (if wifi_reconnect_attempts w1 > 0
              then (wemit (LogPushf ''[wifi] reconnect successful after %u attempts''
                             [U (wifi_reconnect_attempts w1)]) w1)\<lparr>wifi_reconnect_attempts := 0\<rparr>
              else w1)
           else if now - last_reconnect_attempt w1 < WIFI_RECONNECT_DELAY_MS then w1
           else
             let w2 = w1\<lparr>last_reconnect_attempt := now,
                         wifi_reconnect_attempts := wifi_reconnect_attempts w1 + 1\<rparr>;
                 w3 = wemit (LogPushf ''[wifi] disconnected, attempting reconnect #%u''
                               [U (wifi_reconnect_attempts w2)]) w2;
                 w4 = wemit ConnectWifiDual (wemit (Delay 100) (wemit WifiDisconnect w3))
             in if connected_after
                then (wemit (LogPushf ''[wifi] reconnected successfully'' []) w4)\<lparr>wifi_reconnect_attempts := 0\<rparr>
                else wemit (LogPushf ''[wifi] reconnect attempt #%u failed, will retry in %us''
                              [U (wifi_reconnect_attempts w4), U (WIFI_RECONNECT_DELAY_MS div 1000)]) w4)"

text \<open>
  A run of the supervisor: each poll happens at a time in milliseconds since boot (the
  clock shows it modulo \<open>2 ^ 32\<close>) and sees the link up or down. \<open>attempt_times\<close> lists
  the times of the polls that called \<open>connect_wifi_dual()\<close>.
\<close>

record wpoll =
  at :: nat
  link_up :: bool
  link_up_after :: bool

definition poll_wifi :: "wpoll \<Rightarrow> wifi \<Rightarrow> wifi" where
  "poll_wifi p w = check_and_reconnect_wifi (word_of_nat (at p)) (link_up p) (link_up_after p) w"

definition new_effects :: "wifi \<Rightarrow> wifi \<Rightarrow> effect list" where
  "new_effects w w' = drop (length (wtrace w)) (wtrace w')"

fun attempt_times :: "wpoll list \<Rightarrow> wifi \<Rightarrow> nat list" where
  "attempt_times [] w = []"
| "attempt_times (p # ps) w =
     (let w' = poll_wifi p w
      in (if ConnectWifiDual \<in> set (new_effects w w') then [at p] else []) @ attempt_times ps w')"

section \<open>Properties of the storage operations\<close>

lemma fmt_04u_small:
  "fmt_04u 0 = ''0000''" "fmt_04u 1 = ''0001''" "fmt_04u (Suc 0) = ''0001''" "fmt_04u 2 = ''0002''"
  by code_simp+

text \<open>
  C8. \<open>start_video_recording\<close> succeeds only when the card is available, no recording is
  open and the card opens the file. When the card is unavailable or a recording is open
  it returns false and the state is the one it was called in: flag, path, start time,
  frame counter and file-name counter are unchanged and nothing is logged. When it
  succeeds, the file named after the old value of the video counter exists and is empty,
  the counter has advanced by one, the recording flag is set, the start time is the
  clock reading and the frame counter is zero.
\<close>

theorem start_recording_contract:
  "(\<not> sd_available s \<or> is_recording s \<longrightarrow>
      start_video_recording open_ok now s = (False, s) \<and>
      start_video_recording_v2 open_ok now s = (False, s)) \<and>
   (fst (start_video_recording open_ok now s) \<longrightarrow> sd_available s \<and> \<not> is_recording s \<and> open_ok) \<and>
   (sd_available s \<and> \<not> is_recording s \<and> open_ok \<longrightarrow>
      (let (ok, s') = start_video_recording open_ok now s;
           path = snprintf 64 (''/videos/VID_'' @ fmt_04u (unat (video_counter s)) @ ''.mjpeg'')
       in ok \<and> is_recording s' \<and> recording_start_ms s' = now \<and> video_frame_count s' = 0 \<and>
          current_video_path s' = path \<and> video_file s' = Some path \<and>
          sd_files s' path = Some [] \<and> video_counter s' = video_counter s + 1 \<and>
          start_video_recording_v2 open_ok now s = (ok, s')))"
  by (auto simp: start_video_recording_def start_video_recording_v2_def Let_def log_call_def
      emit_def sd_open_write_def)

theorem start_recording_contract_witness:
  "start_video_recording True 5 boot = (False, boot) \<and>
   fst (start_video_recording True 5 (boot\<lparr>sd_available := True\<rparr>)) \<and>
   current_video_path (snd (start_video_recording True 5 (boot\<lparr>sd_available := True\<rparr>))) =
     ''/videos/VID_0000.mjpeg'' \<and>
   video_counter (snd (start_video_recording True 5 (boot\<lparr>sd_available := True\<rparr>))) = 1"
proof -
  have h1: "\<not> sd_available boot \<or> is_recording boot"
    by (simp add: boot_def)
  have h2: "sd_available (boot\<lparr>sd_available := True\<rparr>) \<and> \<not> is_recording (boot\<lparr>sd_available := True\<rparr>) \<and> True"
    by (simp add: boot_def)
  have name: "snprintf 64 (''/videos/VID_'' @ fmt_04u (unat (video_counter (boot\<lparr>sd_available := True\<rparr>))) @ ''.mjpeg'')
      = ''/videos/VID_0000.mjpeg''"
    by (simp add: boot_def snprintf_def fmt_04u_small)
  have c0: "video_counter (boot\<lparr>sd_available := True\<rparr>) + 1 = 1"
    by (simp add: boot_def)
  from start_recording_contract [of boot True 5] h1
  have c1: "start_video_recording True 5 boot = (False, boot)"
    by blast
  from start_recording_contract [of "boot\<lparr>sd_available := True\<rparr>" True 5] h2
  have c2: "(let (ok, s') = start_video_recording True 5 (boot\<lparr>sd_available := True\<rparr>);
           path = snprintf 64 (''/videos/VID_'' @ fmt_04u (unat (video_counter (boot\<lparr>sd_available := True\<rparr>))) @ ''.mjpeg'')
       in ok \<and> is_recording s' \<and> recording_start_ms s' = 5 \<and> video_frame_count s' = 0 \<and>
          current_video_path s' = path \<and> video_file s' = Some path \<and>
          sd_files s' path = Some [] \<and> video_counter s' = video_counter (boot\<lparr>sd_available := True\<rparr>) + 1 \<and>
          start_video_recording_v2 True 5 (boot\<lparr>sd_available := True\<rparr>) = (ok, s'))"
    by blast
  from c2 have started: "fst (start_video_recording True 5 (boot\<lparr>sd_available := True\<rparr>))"
    by (simp add: Let_def split: prod.splits)
  from start_recording_contract [of "boot\<lparr>sd_available := True\<rparr>" True 5] started
  have c3: "sd_available (boot\<lparr>sd_available := True\<rparr>) \<and>
      \<not> is_recording (boot\<lparr>sd_available := True\<rparr>) \<and> True"
    by (rule conjunct2 [THEN conjunct1, THEN mp])
  from c2 c3 show ?thesis
    unfolding name c0 using c1 by (simp add: Let_def split: prod.splits)
qed

text \<open>
  C9. Outside a recording \<open>stop_video_recording\<close> returns the state it was called in:
  the flag, the file, the frame counter and the trace (so no summary line) are
  unchanged. A second call right after a first therefore changes nothing, whatever the
  state of the first call was. The same holds in the v2 and v2.3 revisions.
\<close>

theorem stop_recording_noop:
  "(\<not> is_recording s \<longrightarrow>
      stop_video_recording now s = s \<and> stop_video_recording_v2 now s = s \<and>
      stop_video_recording_v23 now s = s) \<and>
   stop_video_recording now' (stop_video_recording now s) = stop_video_recording now s \<and>
   stop_video_recording_v2 now' (stop_video_recording_v2 now s) = stop_video_recording_v2 now s \<and>
   stop_video_recording_v23 now' (stop_video_recording_v23 now s) = stop_video_recording_v23 now s"
  by (auto simp: stop_video_recording_def stop_video_recording_v2_def
      stop_video_recording_v23_def Let_def log_call_def emit_def)

theorem stop_recording_noop_witness:
  "stop_video_recording 7 boot = boot \<and> trace (stop_video_recording 7 boot) = [] \<and>
   stop_video_recording 9 (stop_video_recording 7 (boot\<lparr>is_recording := True\<rparr>)) =
     stop_video_recording 7 (boot\<lparr>is_recording := True\<rparr>) \<and>
   \<not> is_recording (stop_video_recording 7 (boot\<lparr>is_recording := True\<rparr>))"
proof -
  have h: "\<not> is_recording boot"
    by (simp add: boot_def)
  have t: "trace boot = []"
    by (simp add: boot_def)
  have r: "\<not> is_recording (stop_video_recording 7 (boot\<lparr>is_recording := True\<rparr>))"
    by (simp add: stop_video_recording_def Let_def log_call_def emit_def)
  from stop_recording_noop [of boot 7 9] h have "stop_video_recording 7 boot = boot"
    by blast
  with t r stop_recording_noop [of "boot\<lparr>is_recording := True\<rparr>" 7 9] show ?thesis
    by simp
qed

text \<open>
  C10. With the card available and a frame that is not null, \<open>save_photo_to_sd\<close> adds one
  to the photo counter (modulo \<open>2 ^ 32\<close>) whatever the card does: the save succeeds
  exactly when the file is created and every byte is accepted, and the counter has
  advanced in the other two cases as well. So the numbers of saved photos can skip:
  a save, a failed creation and another save from counter 0 leave files 0 and 2.
\<close>

theorem save_photo_consumes_number:
  "(sd_available s \<longrightarrow>
      photo_counter (snd (save_photo_to_sd (Some fb) open_ok accepted s)) = photo_counter s + 1 \<and>
      photo_counter (snd (save_photo_to_sd_v2 (Some fb) open_ok accepted s)) = photo_counter s + 1 \<and>
      fst (fst (save_photo_to_sd (Some fb) open_ok accepted s)) = (open_ok \<and> len fb \<le> accepted) \<and>
      fst (fst (save_photo_to_sd_v2 (Some fb) open_ok accepted s)) = (open_ok \<and> len fb \<le> accepted)) \<and>
   (let fb0 = \<lparr>buf = ''JPEG'', width = 640, height = 480\<rparr>;
        (r1, s1) = save_photo_to_sd (Some fb0) True 4 (boot\<lparr>sd_available := True\<rparr>);
        (r2, s2) = save_photo_to_sd (Some fb0) False 4 s1;
        (r3, s3) = save_photo_to_sd (Some fb0) True 4 s2
    in r1 = (True, ''/photos/IMG_0000.jpg'') \<and> r2 = (False, ''/photos/IMG_0001.jpg'') \<and>
       r3 = (True, ''/photos/IMG_0002.jpg'') \<and>
       sd_files s3 ''/photos/IMG_0000.jpg'' = Some ''JPEG'' \<and>
       sd_files s3 ''/photos/IMG_0001.jpg'' = None \<and>
       sd_files s3 ''/photos/IMG_0002.jpg'' = Some ''JPEG'')"
proof -
  have general: "photo_counter (snd (save_photo_to_sd (Some fb) open_ok accepted s)) = photo_counter s + 1 \<and>
      photo_counter (snd (save_photo_to_sd_v2 (Some fb) open_ok accepted s)) = photo_counter s + 1 \<and>
      fst (fst (save_photo_to_sd (Some fb) open_ok accepted s)) = (open_ok \<and> len fb \<le> accepted) \<and>
      fst (fst (save_photo_to_sd_v2 (Some fb) open_ok accepted s)) = (open_ok \<and> len fb \<le> accepted)"
    if "sd_available s"
    using that
    by (auto simp: save_photo_to_sd_def save_photo_to_sd_v2_def Let_def log_call_def emit_def
        sd_open_write_def file_write_def written_def len_def)
  have example: "(let fb0 = \<lparr>buf = ''JPEG'', width = 640, height = 480\<rparr>;
        (r1, s1) = save_photo_to_sd (Some fb0) True 4 (boot\<lparr>sd_available := True\<rparr>);
        (r2, s2) = save_photo_to_sd (Some fb0) False 4 s1;
        (r3, s3) = save_photo_to_sd (Some fb0) True 4 s2
    in r1 = (True, ''/photos/IMG_0000.jpg'') \<and> r2 = (False, ''/photos/IMG_0001.jpg'') \<and>
       r3 = (True, ''/photos/IMG_0002.jpg'') \<and>
       sd_files s3 ''/photos/IMG_0000.jpg'' = Some ''JPEG'' \<and>
       sd_files s3 ''/photos/IMG_0001.jpg'' = None \<and>
       sd_files s3 ''/photos/IMG_0002.jpg'' = Some ''JPEG'')"
    by (simp add: save_photo_to_sd_def Let_def log_call_def emit_def sd_open_write_def
        file_write_def written_def len_def boot_def snprintf_def fmt_04u_small)
  show ?thesis using general example by blast
qed

theorem save_photo_consumes_number_witness:
  "photo_counter (snd (save_photo_to_sd (Some \<lparr>buf = ''JPEG'', width = 640, height = 480\<rparr>) False 0
      (boot\<lparr>sd_available := True, photo_counter := 41\<rparr>))) = 42 \<and>
   \<not> fst (fst (save_photo_to_sd (Some \<lparr>buf = ''JPEG'', width = 640, height = 480\<rparr>) True 3
      (boot\<lparr>sd_available := True, photo_counter := 41\<rparr>))) \<and>
   photo_counter (snd (save_photo_to_sd (Some \<lparr>buf = ''JPEG'', width = 640, height = 480\<rparr>) True 3
      (boot\<lparr>sd_available := True, photo_counter := 41\<rparr>))) = 42"
proof -
  have h: "sd_available (boot\<lparr>sd_available := True, photo_counter := 41\<rparr>)"
    by simp
  have c: "photo_counter (boot\<lparr>sd_available := True, photo_counter := 41\<rparr>) + 1 = 42"
    by simp
  have l: "\<not> (True \<and> len \<lparr>buf = ''JPEG'', width = 640, height = 480\<rparr> \<le> 3)"
    by (simp add: len_def)
  from save_photo_consumes_number [of "boot\<lparr>sd_available := True, photo_counter := 41\<rparr>"
      "\<lparr>buf = ''JPEG'', width = 640, height = 480\<rparr>" False 0]
    save_photo_consumes_number [of "boot\<lparr>sd_available := True, photo_counter := 41\<rparr>"
      "\<lparr>buf = ''JPEG'', width = 640, height = 480\<rparr>" True 3] h l
  show ?thesis
    unfolding c by blast
qed

section \<open>Properties of the connectivity supervisor\<close>

lemma word_clock_diff_le:
  assumes "a \<le> t"
  shows "unat ((word_of_nat t :: u32) - word_of_nat a) \<le> t - a"
proof -
  have "(word_of_nat t :: u32) - word_of_nat a = word_of_nat (t - a)"
    using assms by simp
  then show ?thesis
    by (simp add: unat_of_nat)
qed

lemma check_wifi_trace:
  "\<exists>es. wtrace (check_and_reconnect_wifi now c ca w) = wtrace w @ es \<and>
     (ConnectWifiDual \<in> set es \<longleftrightarrow>
        \<not> now - last_wifi_check_ms w < WIFI_CHECK_INTERVAL_MS \<and> \<not> c \<and>
        \<not> now - last_reconnect_attempt w < WIFI_RECONNECT_DELAY_MS)"
  by (simp add: check_and_reconnect_wifi_def Let_def wemit_def)

lemma issued_iff:
  "ConnectWifiDual \<in> set (new_effects w (check_and_reconnect_wifi now c ca w)) \<longleftrightarrow>
     \<not> now - last_wifi_check_ms w < WIFI_CHECK_INTERVAL_MS \<and> \<not> c \<and>
     \<not> now - last_reconnect_attempt w < WIFI_RECONNECT_DELAY_MS"
  using check_wifi_trace [of now c ca w] by (auto simp: new_effects_def)

lemma last_attempt_after:
  "last_reconnect_attempt (check_and_reconnect_wifi now c ca w) =
     (if ConnectWifiDual \<in> set (new_effects w (check_and_reconnect_wifi now c ca w))
      then now else last_reconnect_attempt w)"
  unfolding issued_iff by (simp add: check_and_reconnect_wifi_def Let_def wemit_def)

lemma spacing_aux:
  "sorted (map at ps) \<Longrightarrow> last_reconnect_attempt w = word_of_nat a \<Longrightarrow> \<forall>p \<in> set ps. a \<le> at p \<Longrightarrow>
     successively (\<lambda>x y. x + 30000 \<le> y) (a # attempt_times ps w)"
proof (induction ps arbitrary: w a)
  case Nil
  then show ?case by simp
next
  case (Cons p ps)
  let ?w = "poll_wifi p w"
  have later: "\<forall>q \<in> set ps. at p \<le> at q"
    using Cons.prems(1) by simp
  have srt: "sorted (map at ps)"
    using Cons.prems(1) by simp
  have ap: "a \<le> at p"
    using Cons.prems(3) by simp
  show ?case
  proof (cases "ConnectWifiDual \<in> set (new_effects w ?w)")
    case True
    then have "\<not> (word_of_nat (at p) :: u32) - word_of_nat a < WIFI_RECONNECT_DELAY_MS"
      using Cons.prems(2) by (simp add: poll_wifi_def issued_iff)
    then have "30000 \<le> unat ((word_of_nat (at p) :: u32) - word_of_nat a)"
      by (simp add: WIFI_RECONNECT_DELAY_MS_def word_less_nat_alt)
    with word_clock_diff_le [OF ap] have far: "a + 30000 \<le> at p"
      by linarith
    have "last_reconnect_attempt ?w = word_of_nat (at p)"
      using True by (simp add: poll_wifi_def last_attempt_after)
    from Cons.IH [OF srt this later] far True show ?thesis
      by (simp add: Let_def)
  next
    case False
    then have "last_reconnect_attempt ?w = word_of_nat a"
      using Cons.prems(2) by (simp add: poll_wifi_def last_attempt_after)
    moreover have "\<forall>q \<in> set ps. a \<le> at q"
      using Cons.prems(3) by simp
    ultimately show ?thesis
      using Cons.IH [OF srt] False by (simp add: Let_def)
  qed
qed

text \<open>
  C7. For every run of polls at non-decreasing times, however close together and whatever
  the link state they see, each reconnect attempt comes at least 30000 ms after the
  one before it (\<open>a\<close> is the time of the last attempt before the run, 0 after boot).
  The attempt counter is zero after every health check that finds the link up, and
  after every attempt that leaves the link up.
\<close>

theorem reconnect_spacing:
  "(sorted (map at ps) \<and> last_reconnect_attempt w = word_of_nat a \<and> (\<forall>p \<in> set ps. a \<le> at p) \<longrightarrow>
      successively (\<lambda>x y. x + 30000 \<le> y) (a # attempt_times ps w)) \<and>
   (\<not> now - last_wifi_check_ms w < WIFI_CHECK_INTERVAL_MS \<and> connected \<longrightarrow>
      wifi_reconnect_attempts (check_and_reconnect_wifi now connected after w) = 0) \<and>
   (ConnectWifiDual \<in> set (new_effects w (check_and_reconnect_wifi now connected True w)) \<longrightarrow>
      wifi_reconnect_attempts (check_and_reconnect_wifi now connected True w) = 0)"
proof -
  have reset1: "wifi_reconnect_attempts (check_and_reconnect_wifi now connected after w) = 0"
    if "\<not> now - last_wifi_check_ms w < WIFI_CHECK_INTERVAL_MS" "connected"
    using that by (simp add: check_and_reconnect_wifi_def Let_def wemit_def word_greater_zero_iff)
  have reset2: "wifi_reconnect_attempts (check_and_reconnect_wifi now connected True w) = 0"
    if "ConnectWifiDual \<in> set (new_effects w (check_and_reconnect_wifi now connected True w))"
    using that unfolding issued_iff by (simp add: check_and_reconnect_wifi_def Let_def wemit_def)
  show ?thesis
    using spacing_aux [of ps w a] reset1 reset2 by blast
qed

theorem reconnect_spacing_witness:
  "attempt_times [\<lparr>at = 30000, link_up = False, link_up_after = False\<rparr>,
                  \<lparr>at = 40000, link_up = False, link_up_after = False\<rparr>,
                  \<lparr>at = 60000, link_up = False, link_up_after = False\<rparr>] wifi_boot = [30000, 60000] \<and>
   successively (\<lambda>x y. x + 30000 \<le> y)
     (0 # attempt_times [\<lparr>at = 30000, link_up = False, link_up_after = False\<rparr>,
                         \<lparr>at = 40000, link_up = False, link_up_after = False\<rparr>,
                         \<lparr>at = 60000, link_up = False, link_up_after = False\<rparr>] wifi_boot) \<and>
   wifi_reconnect_attempts
     (check_and_reconnect_wifi 50000 True False (wifi_boot\<lparr>wifi_reconnect_attempts := 3\<rparr>)) = 0 \<and>
   wifi_reconnect_attempts
     (check_and_reconnect_wifi 50000 False True (wifi_boot\<lparr>wifi_reconnect_attempts := 3\<rparr>)) = 0"
proof -
  let ?ps = "[\<lparr>at = 30000, link_up = False, link_up_after = False\<rparr>,
              \<lparr>at = 40000, link_up = False, link_up_after = False\<rparr>,
              \<lparr>at = 60000, link_up = False, link_up_after = False\<rparr>]"
  let ?w = "wifi_boot\<lparr>wifi_reconnect_attempts := 3\<rparr>"
  have h1: "sorted (map at ?ps) \<and> last_reconnect_attempt wifi_boot = word_of_nat 0 \<and> (\<forall>p \<in> set ?ps. 0 \<le> at p)"
    by (simp add: wifi_boot_def)
  have times: "attempt_times ?ps wifi_boot = [30000, 60000]"
    by (simp add: wifi_boot_def poll_wifi_def new_effects_def check_and_reconnect_wifi_def
        Let_def wemit_def WIFI_CHECK_INTERVAL_MS_def WIFI_RECONNECT_DELAY_MS_def)
  have h2: "\<not> 50000 - last_wifi_check_ms ?w < WIFI_CHECK_INTERVAL_MS \<and> True"
    by (simp add: wifi_boot_def WIFI_CHECK_INTERVAL_MS_def)
  have h3: "ConnectWifiDual \<in> set (new_effects ?w (check_and_reconnect_wifi 50000 False True ?w))"
    by (simp add: wifi_boot_def new_effects_def check_and_reconnect_wifi_def
        Let_def wemit_def WIFI_CHECK_INTERVAL_MS_def WIFI_RECONNECT_DELAY_MS_def)
  from reconnect_spacing [of ?ps wifi_boot 0 50000 True False] h1
  have c1: "successively (\<lambda>x y. x + 30000 \<le> y) (0 # attempt_times ?ps wifi_boot)"
    by (rule conjunct1 [THEN mp])
  from reconnect_spacing [of "[]" ?w 0 50000 True False] h2
  have c2: "wifi_reconnect_attempts (check_and_reconnect_wifi 50000 True False ?w) = 0"
    by (rule conjunct2 [THEN conjunct1, THEN mp])
  from reconnect_spacing [of "[]" ?w 0 50000 False False] h3
  have c3: "wifi_reconnect_attempts (check_and_reconnect_wifi 50000 False True ?w) = 0"
    by (rule conjunct2 [THEN conjunct2, THEN mp])
  from times c1 c2 c3 show ?thesis
    by (intro conjI)
qed

section \<open>Properties of the diagnostic ring buffer\<close>

lemma slot_text_eq: "slot_text t = take 219 t"
  by (simp add: slot_text_def snprintf_def LOG_LEN_def)

lemma slot_text_empty: "slot_text t = [] \<longleftrightarrow> t = []"
  by (simp add: slot_text_eq)

lemma push_all_snoc: "log_push_all (ts @ [t]) lb = log_pushf t (log_push_all ts lb)"
  by (simp add: log_push_all_def)

lemma push_all_Nil: "log_push_all [] lb = lb"
  by (simp add: log_push_all_def)

lemma push_all_length: "length (g_log (log_push_all ts lb)) = length (g_log lb)"
  by (induction ts rule: rev_induct) (simp_all add: push_all_snoc push_all_Nil log_pushf_def)

lemma push_all_seq: "g_log_seq (log_push_all ts lb) = g_log_seq lb + word_of_nat (length ts)"
  by (induction ts rule: rev_induct) (simp_all add: push_all_snoc push_all_Nil log_pushf_def)

lemma push_all_head:
  "g_log_head lb < LOG_CAP \<Longrightarrow> g_log_head (log_push_all ts lb) = (g_log_head lb + length ts) mod LOG_CAP"
  by (induction ts rule: rev_induct) (simp_all add: push_all_snoc push_all_Nil log_pushf_def mod_Suc_eq)

lemma ring_distinct:
  assumes "0 < i" "i < LOG_CAP" "i \<le> m"
  shows "(m - i) mod LOG_CAP \<noteq> m mod LOG_CAP"
proof
  assume "(m - i) mod LOG_CAP = m mod LOG_CAP"
  then have "m mod LOG_CAP = (m - i) mod LOG_CAP"
    by simp
  then have "LOG_CAP dvd m - (m - i)"
    using mod_eq_dvd_iff_nat [of "m - i" m LOG_CAP] by simp
  then have "LOG_CAP dvd i"
    using assms(3) by simp
  with assms(1,2) show False
    by (auto dest: dvd_imp_le)
qed

text \<open>After pushing \<open>ts\<close>, the \<open>i\<close>-th slot back from the head holds the \<open>i\<close>-th line back.\<close>

lemma ring_content_back:
  assumes "length (g_log lb) = LOG_CAP" "g_log_head lb < LOG_CAP"
  shows "i < length ts \<Longrightarrow> i < LOG_CAP \<Longrightarrow>
     g_log (log_push_all ts lb) ! ((g_log_head lb + length ts - 1 - i) mod LOG_CAP) =
       slot_text (ts ! (length ts - 1 - i))"
proof (induction ts arbitrary: i rule: rev_induct)
  case Nil
  then show ?case by simp
next
  case (snoc t ts)
  let ?lb = "log_push_all ts lb"
  have hd: "g_log_head ?lb = (g_log_head lb + length ts) mod LOG_CAP"
    using assms(2) by (rule push_all_head)
  have len: "length (g_log ?lb) = LOG_CAP"
    using assms(1) by (simp add: push_all_length)
  have cap: "0 < LOG_CAP"
    by (simp add: LOG_CAP_def)
  show ?case
  proof (cases i)
    case 0
    then show ?thesis
      using hd len cap by (simp add: push_all_snoc log_pushf_def)
  next
    case (Suc k)
    then have k: "k < length ts" "k < LOG_CAP"
      using snoc.prems by simp_all
    have ne: "(g_log_head lb + length ts - i) mod LOG_CAP \<noteq> (g_log_head lb + length ts) mod LOG_CAP"
      using ring_distinct [of i "g_log_head lb + length ts"] snoc.prems Suc by simp
    have "g_log (log_push_all (ts @ [t]) lb) ! ((g_log_head lb + length ts - i) mod LOG_CAP) =
        g_log ?lb ! ((g_log_head lb + length ts - i) mod LOG_CAP)"
      using ne hd by (simp add: push_all_snoc log_pushf_def)
    also have "\<dots> = slot_text (ts ! (length ts - 1 - k))"
      using snoc.IH [OF k] Suc by simp
    finally have "g_log (log_push_all (ts @ [t]) lb) ! ((g_log_head lb + length ts - i) mod LOG_CAP) =
        slot_text (ts ! (length ts - 1 - k))" .
    moreover have "length ts - 1 - k < length ts"
      using k by arith
    moreover have "length (ts @ [t]) - 1 - i = length ts - 1 - k"
      using Suc by simp
    moreover have "g_log_head lb + length (ts @ [t]) - 1 - i = g_log_head lb + length ts - i"
      by simp
    ultimately show ?thesis
      by (simp only: nth_append if_True)
  qed
qed

text \<open>The same, counted forward from the oldest of the last \<open>c\<close> lines.\<close>

lemma ring_content_forward:
  assumes "length (g_log lb) = LOG_CAP" "g_log_head lb < LOG_CAP" "c \<le> length ts" "c \<le> LOG_CAP" "j < c"
  shows "g_log (log_push_all ts lb) ! ((g_log_head lb + length ts - c + j) mod LOG_CAP) =
       slot_text (drop (length ts - c) ts ! j)"
proof -
  have "c - 1 - j < length ts" "c - 1 - j < LOG_CAP"
    using assms by simp_all
  from ring_content_back [OF assms(1,2) this]
  have "g_log (log_push_all ts lb) ! ((g_log_head lb + length ts - 1 - (c - 1 - j)) mod LOG_CAP) =
       slot_text (ts ! (length ts - 1 - (c - 1 - j)))" .
  moreover have "g_log_head lb + length ts - 1 - (c - 1 - j) = g_log_head lb + length ts - c + j"
    using assms by simp
  moreover have "length ts - 1 - (c - 1 - j) = length ts - c + j"
    using assms by simp
  ultimately show ?thesis
    using assms by simp
qed

lemma wrap_idx_mod: "idx < int LOG_CAP \<Longrightarrow> wrap_idx idx = idx mod int LOG_CAP"
proof (induction idx rule: wrap_idx.induct)
  case (1 idx)
  show ?case
  proof (cases "idx < 0")
    case True
    with 1 show ?thesis
      by (subst wrap_idx.simps) simp
  next
    case False
    with 1 show ?thesis
      by (subst wrap_idx.simps) simp
  qed
qed

lemma send_slots_read:
  "length slots = LOG_CAP \<Longrightarrow> k < LOG_CAP \<Longrightarrow> length ys = n \<Longrightarrow>
   (\<forall>j < n. slots ! ((k + j) mod LOG_CAP) = ys ! j) \<Longrightarrow>
   send_slots slots (int k) n = Some (filter (\<lambda>l. l \<noteq> []) ys)"
proof (induction n arbitrary: k ys)
  case 0
  then show ?case by simp
next
  case (Suc n)
  then obtain y ys' where ys: "ys = y # ys'" "length ys' = n"
    by (cases ys) auto
  have y: "slots ! k = y"
    using Suc.prems(2,4) ys by (auto dest: spec [of _ 0])
  have next_idx: "(int k + 1) mod int LOG_CAP = int (Suc k mod LOG_CAP)"
    by (simp add: zmod_int add.commute)
  have "\<forall>j < n. slots ! ((Suc k mod LOG_CAP + j) mod LOG_CAP) = ys' ! j"
  proof (intro allI impI)
    fix j assume "j < n"
    then have "Suc j < Suc n"
      by simp
    with Suc.prems(4) have "slots ! ((k + Suc j) mod LOG_CAP) = ys ! Suc j"
      by blast
    then show "slots ! ((Suc k mod LOG_CAP + j) mod LOG_CAP) = ys' ! j"
      using ys by (simp add: mod_add_left_eq)
  qed
  with Suc.IH [of "Suc k mod LOG_CAP" ys'] Suc.prems(1) ys
  have "send_slots slots (int (Suc k mod LOG_CAP)) n = Some (filter (\<lambda>l. l \<noteq> []) ys')"
    by (simp add: LOG_CAP_def)
  then show ?case
    using Suc.prems(1,2) y ys next_idx by simp
qed

text \<open>Reading the last \<open>c\<close> lines back from the head, as both readers do.\<close>

lemma read_back:
  assumes "length (g_log lb) = LOG_CAP" "g_log_head lb < LOG_CAP" "c \<le> length ts" "c \<le> LOG_CAP"
  shows "send_slots (g_log (log_push_all ts lb))
           (wrap_idx (int (g_log_head (log_push_all ts lb)) - int c)) c =
         Some (filter (\<lambda>l. l \<noteq> []) (map slot_text (drop (length ts - c) ts)))"
proof -
  let ?lb = "log_push_all ts lb"
  let ?k = "(g_log_head lb + length ts - c) mod LOG_CAP"
  have hd: "g_log_head ?lb = (g_log_head lb + length ts) mod LOG_CAP"
    using assms(2) by (rule push_all_head)
  have "int (g_log_head ?lb) - int c < int LOG_CAP"
    using hd by (simp add: LOG_CAP_def)
  then have "wrap_idx (int (g_log_head ?lb) - int c) = (int (g_log_head ?lb) - int c) mod int LOG_CAP"
    by (rule wrap_idx_mod)
  also have "\<dots> = (int (g_log_head lb + length ts) - int c) mod int LOG_CAP"
    unfolding hd by (simp add: zmod_int mod_diff_left_eq)
  also have "\<dots> = int ?k"
    using assms(3) by (simp add: zmod_int)
  finally have idx: "wrap_idx (int (g_log_head ?lb) - int c) = int ?k" .
  have "send_slots (g_log ?lb) (int ?k) c =
      Some (filter (\<lambda>l. l \<noteq> []) (map slot_text (drop (length ts - c) ts)))"
  proof (rule send_slots_read)
    show "length (g_log ?lb) = LOG_CAP"
      using assms(1) by (simp add: push_all_length)
    show "?k < LOG_CAP"
      by (simp add: LOG_CAP_def)
    show "length (map slot_text (drop (length ts - c) ts)) = c"
      using assms(3) by simp
    show "\<forall>j < c. g_log ?lb ! ((?k + j) mod LOG_CAP) = map slot_text (drop (length ts - c) ts) ! j"
    proof (intro allI impI)
      fix j assume j: "j < c"
      have "g_log ?lb ! ((?k + j) mod LOG_CAP) = g_log ?lb ! ((g_log_head lb + length ts - c + j) mod LOG_CAP)"
        by (simp add: mod_add_left_eq)
      also have "\<dots> = slot_text (drop (length ts - c) ts ! j)"
        using assms j by (rule ring_content_forward)
      finally show "g_log ?lb ! ((?k + j) mod LOG_CAP) = map slot_text (drop (length ts - c) ts) ! j"
        using j assms(3) by simp
    qed
  qed
  with idx show ?thesis
    by simp
qed

lemma small_word:
  assumes "n \<le> LOG_CAP"
  shows "unat (word_of_nat n :: u32) = n" "sint (word_of_nat n :: u32) = int n"
proof -
  have n: "n < 2 ^ 31"
    using assms by (simp add: LOG_CAP_def)
  then show "unat (word_of_nat n :: u32) = n"
    by (simp add: unat_of_nat)
  have "sint (word_of_nat n :: u32) = signed_take_bit 31 (int n)"
    by (simp add: signed_of_nat)
  also have "\<dots> = int n"
    using n by (intro signed_take_bit_int_eq_self) simp_all
  finally show "sint (word_of_nat n :: u32) = int n" .
qed

lemma clear_wf: "length (g_log (log_clear lb)) = LOG_CAP" "g_log_head (log_clear lb) < LOG_CAP"
  "g_log_seq (log_clear lb) = 0" "g_log_head (log_clear lb) = 0"
  by (simp_all add: log_clear_def LOG_CAP_def)

lemma word_of_nat_less_small:
  assumes "K < 2 ^ 32" "c \<le> LOG_CAP"
  shows "((word_of_nat K :: u32) < word_of_nat c) = (K < c)"
proof -
  have "unat (word_of_nat K :: u32) = K"
    using assms(1) by (simp add: unat_of_nat)
  then show ?thesis
    using small_word(1) [OF assms(2)] by (simp add: word_less_nat_alt)
qed

lemma snapshot_general:
  assumes wf: "length (g_log lb) = LOG_CAP" "g_log_head lb < LOG_CAP"
    and seq: "g_log_seq (log_push_all ts lb) = word_of_nat K" "K < 2 ^ 32" "min K m \<le> length ts"
    and m: "m \<le> LOG_CAP"
  shows "sse_send_recent (int m) (log_push_all ts lb) =
     Some (filter (\<lambda>l. l \<noteq> []) (map slot_text (drop (length ts - min K m) ts)))"
proof -
  let ?c = "min K m"
  have c: "?c \<le> LOG_CAP"
    using m by simp
  have count: "(if (word_of_nat K :: u32) < word_of_int (int m) then word_of_nat K else word_of_int (int m)) =
      (word_of_nat ?c :: u32)"
    using word_of_nat_less_small [OF seq(2) m] by (simp add: min_def)
  have unfolded: "sse_send_recent (int m) (log_push_all ts lb) =
      (if (word_of_nat ?c :: u32) = 0 then Some []
       else send_slots (g_log (log_push_all ts lb))
              (wrap_idx (int (g_log_head (log_push_all ts lb)) - sint (word_of_nat ?c :: u32)))
              (unat (word_of_nat ?c :: u32)))"
    unfolding sse_send_recent_def Let_def seq(1) count ..
  show ?thesis
  proof (cases "?c = 0")
    case True
    then have "(word_of_nat ?c :: u32) = 0"
      by simp
    with True show ?thesis
      unfolding unfolded by simp
  next
    case False
    then have "unat (word_of_nat ?c :: u32) \<noteq> 0"
      using small_word(1) [OF c] by simp
    then have nz: "(word_of_nat ?c :: u32) \<noteq> 0"
      by (metis unat_0)
    from read_back [OF wf seq(3) c] nz show ?thesis
      unfolding unfolded small_word [OF c] by simp
  qed
qed

text \<open>
  C5. From a cleared buffer, after \<open>K\<close> appends (\<open>K\<close> below \<open>2 ^ 32\<close>, the range of the
  sequence counter) the sequence counter is \<open>K\<close>, the head is \<open>K mod 320\<close>, and
  \<open>sse_send_recent\<close> asked for \<open>m \<le> 320\<close> lines sends the last \<open>min K m\<close> lines, cut to
  219 characters, oldest first, leaving out empty ones. So for \<open>K > 320\<close> lines, none of
  them empty, a snapshot of 320 returns exactly the 320 most recent. Each append writes
  the line cut to \<open>LOG_LEN - 1\<close> characters into the head slot, advances the head modulo
  320 and adds one to the sequence counter.
\<close>

theorem ring_append_snapshot:
  "(length ts < 2 ^ 32 \<and> m \<le> LOG_CAP \<longrightarrow>
      (let lb' = log_push_all ts (log_clear lb)
       in g_log_seq lb' = word_of_nat (length ts) \<and> unat (g_log_seq lb') = length ts \<and>
          g_log_head lb' = length ts mod LOG_CAP \<and>
          sse_send_recent (int m) lb' =
            Some (filter (\<lambda>l. l \<noteq> []) (map slot_text (drop (length ts - min (length ts) m) ts))))) \<and>
   (LOG_CAP < length ts \<and> length ts < 2 ^ 32 \<and> [] \<notin> set ts \<longrightarrow>
      sse_send_recent (int LOG_CAP) (log_push_all ts (log_clear lb)) =
        Some (map slot_text (drop (length ts - LOG_CAP) ts))) \<and>
   g_log (log_pushf t lb) = (g_log lb)[g_log_head lb := take (LOG_LEN - 1) t] \<and>
   g_log_head (log_pushf t lb) = (g_log_head lb + 1) mod LOG_CAP \<and>
   g_log_seq (log_pushf t lb) = g_log_seq lb + 1"
proof -
  let ?lb = "log_push_all ts (log_clear lb)"
  have seq: "g_log_seq ?lb = word_of_nat (length ts)"
    by (simp add: push_all_seq clear_wf)
  have hd: "g_log_head ?lb = length ts mod LOG_CAP"
    using push_all_head [of "log_clear lb" ts] clear_wf(2) by (simp add: clear_wf(4))
  have snap: "sse_send_recent (int m) ?lb =
      Some (filter (\<lambda>l. l \<noteq> []) (map slot_text (drop (length ts - min (length ts) m) ts)))"
    if "length ts < 2 ^ 32" "m \<le> LOG_CAP" for m
    using snapshot_general [OF clear_wf(1,2) seq that(1) _ that(2)] by simp
  have part1: "let lb' = ?lb
       in g_log_seq lb' = word_of_nat (length ts) \<and> unat (g_log_seq lb') = length ts \<and>
          g_log_head lb' = length ts mod LOG_CAP \<and>
          sse_send_recent (int m) lb' =
            Some (filter (\<lambda>l. l \<noteq> []) (map slot_text (drop (length ts - min (length ts) m) ts)))"
    if "length ts < 2 ^ 32" "m \<le> LOG_CAP"
    using that seq hd snap [OF that] by (simp add: Let_def unat_of_nat)
  have part2: "sse_send_recent (int LOG_CAP) ?lb = Some (map slot_text (drop (length ts - LOG_CAP) ts))"
    if "LOG_CAP < length ts" "length ts < 2 ^ 32" "[] \<notin> set ts"
  proof -
    have "filter (\<lambda>l. l \<noteq> []) (map slot_text (drop (length ts - LOG_CAP) ts)) =
        map slot_text (drop (length ts - LOG_CAP) ts)"
      using that(3) by (auto simp: filter_id_conv slot_text_empty dest: in_set_dropD)
    with snap [OF that(2), of LOG_CAP] that(1) show ?thesis
      by (simp add: min_def)
  qed
  have part3: "g_log (log_pushf t lb) = (g_log lb)[g_log_head lb := take (LOG_LEN - 1) t] \<and>
      g_log_head (log_pushf t lb) = (g_log_head lb + 1) mod LOG_CAP \<and>
      g_log_seq (log_pushf t lb) = g_log_seq lb + 1"
    by (simp add: log_pushf_def slot_text_def snprintf_def)
  from part1 part2 part3 show ?thesis
    by blast
qed

theorem ring_append_snapshot_witness:
  "sse_send_recent 2 (log_push_all [''a'', ''b'', ''c''] (log_clear log_zero)) = Some [''b'', ''c''] \<and>
   g_log_seq (log_push_all [''a'', ''b'', ''c''] (log_clear log_zero)) = 3 \<and>
   sse_send_recent 320 (log_push_all (''first'' # replicate 320 ''later'') (log_clear log_zero)) =
     Some (replicate 320 ''later'')"
proof -
  let ?ts = "[''a'', ''b'', ''c'']"
  let ?us = "''first'' # replicate 320 ''later''"
  have h1: "length ?ts < 2 ^ 32 \<and> 2 \<le> LOG_CAP"
    by (simp add: LOG_CAP_def)
  have h2: "LOG_CAP < length ?us \<and> length ?us < 2 ^ 32 \<and> [] \<notin> set ?us"
    by (simp add: LOG_CAP_def)
  from ring_append_snapshot [of ?ts 2 log_zero] h1
  have c1: "let lb' = log_push_all ?ts (log_clear log_zero)
       in g_log_seq lb' = word_of_nat (length ?ts) \<and> unat (g_log_seq lb') = length ?ts \<and>
          g_log_head lb' = length ?ts mod LOG_CAP \<and>
          sse_send_recent (int 2) lb' =
            Some (filter (\<lambda>l. l \<noteq> []) (map slot_text (drop (length ?ts - min (length ?ts) 2) ?ts)))"
    by (rule conjunct1 [THEN mp])
  from ring_append_snapshot [of ?us 0 log_zero] h2
  have c2: "sse_send_recent (int LOG_CAP) (log_push_all ?us (log_clear log_zero)) =
        Some (map slot_text (drop (length ?us - LOG_CAP) ?us))"
    by (rule conjunct2 [THEN conjunct1, THEN mp])
  have r1: "filter (\<lambda>l. l \<noteq> []) (map slot_text (drop (length ?ts - min (length ?ts) 2) ?ts)) = [''b'', ''c'']"
    by (simp add: slot_text_eq)
  have r2: "map slot_text (drop (length ?us - LOG_CAP) ?us) = replicate 320 ''later''"
    by (simp add: slot_text_eq LOG_CAP_def)
  from c1 c2 show ?thesis
    unfolding r1 r2 Let_def by (simp add: LOG_CAP_def)
qed

lemma events_round_tail:
  assumes wf: "length (g_log lb) = LOG_CAP" "g_log_head lb < LOG_CAP" and n: "length ts < 2 ^ 32"
  shows "events_round True (g_log_seq lb) (log_push_all ts lb) =
     Delivered (filter (\<lambda>l. l \<noteq> []) (map slot_text (drop (length ts - min (length ts) LOG_CAP) ts)))
       (g_log_seq lb + word_of_nat (length ts))"
proof (cases "ts = []")
  case True
  then show ?thesis
    by (simp add: events_round_def push_all_Nil)
next
  case False
  let ?N = "length ts"
  let ?c = "min ?N LOG_CAP"
  have c: "?c \<le> LOG_CAP" "?c \<le> ?N"
    by simp_all
  have uN: "unat (word_of_nat ?N :: u32) = ?N"
    using n by (simp add: unat_of_nat)
  have "unat (word_of_nat ?N :: u32) \<noteq> 0"
    using False uN by simp
  then have nz: "(word_of_nat ?N :: u32) \<noteq> 0"
    by (metis unat_0)
  then have ne: "g_log_seq lb + word_of_nat ?N \<noteq> g_log_seq lb"
    by simp
  have gt: "((word_of_nat ?N :: u32) > word_of_nat LOG_CAP) = (LOG_CAP < ?N)"
    using uN small_word(1) [of LOG_CAP] by (simp add: word_less_nat_alt)
  have diff: "(if (word_of_nat ?N :: u32) > word_of_nat LOG_CAP then word_of_nat LOG_CAP else word_of_nat ?N)
      = (word_of_nat ?c :: u32)"
    unfolding gt by (simp add: min_def)
  have d0: "g_log_seq lb + word_of_nat ?N - g_log_seq lb = (word_of_nat ?N :: u32)"
    by simp
  have unfolded: "events_round True (g_log_seq lb) (log_push_all ts lb) =
      (case send_slots (g_log (log_push_all ts lb))
              (wrap_idx (int (g_log_head (log_push_all ts lb)) - sint (word_of_nat ?c :: u32)))
              (unat (word_of_nat ?c :: u32)) of
         None \<Rightarrow> OutOfRange
       | Some ls \<Rightarrow> if ls \<noteq> [] \<and> \<not> True then Disconnected
                   else Delivered ls (g_log_seq lb + word_of_nat ?N))"
    unfolding events_round_def Let_def push_all_seq d0 diff using ne by simp
  from read_back [OF wf c(2,1)] show ?thesis
    unfolding unfolded small_word [OF c(1)] by simp
qed

text \<open>
  C6 in the v2.3 revision: a reader that has seen sequence number 0 on a cleared buffer,
  after two appends, is sent the second line only; the first is never delivered, since
  the reader then remembers sequence number 2. (\<open>events_round_tail\<close> above shows that
  the handler of \<^verbatim>\<open>main.cpp\<close> sends every line appended since the reader's number,
  capped to the 320 newest.)
\<close>

theorem events_tail_v23_drops_records:
  "events_round_v23 True 0 (log_push_all [''first'', ''second''] (log_clear log_zero)) =
     Delivered [''second''] 2"
  by (simp add: events_round_v23_def log_push_all_def log_pushf_def log_clear_def log_zero_def
      slot_text_eq LOG_CAP_def Let_def)

lemma events_tail_main_example:
  "events_round True 0 (log_push_all [''first'', ''second''] (log_clear log_zero)) =
     Delivered [''first'', ''second''] 2"
  using events_round_tail [of "log_clear log_zero" "[''first'', ''second'']"]
  by (simp add: clear_wf slot_text_eq LOG_CAP_def)

section \<open>Properties of the recording file\<close>

lemma digit_char_table:
  "list_all (\<lambda>d. is_digit (digit_char d) \<and> digit_val (digit_char d) = d) [0..<10]"
  by code_simp

lemma digit_char_props:
  assumes "d < 10"
  shows "is_digit (digit_char d)" "digit_val (digit_char d) = d"
  using digit_char_table assms by (simp_all add: list_all_iff)

lemma fmt_u_length: "0 < k \<Longrightarrow> n < 10 ^ k \<Longrightarrow> length (fmt_u n) \<le> k"
proof (induction n arbitrary: k rule: fmt_u.induct)
  case (1 n)
  show ?case
  proof (cases "n < 10")
    case True
    with 1(2) show ?thesis
      by (subst fmt_u.simps) simp
  next
    case False
    have "k \<noteq> 1"
      using False 1(3) by auto
    with 1(2) obtain k' where k': "k = Suc k'" "0 < k'"
      by (cases k) auto
    with 1(3) have "n div 10 < 10 ^ k'"
      by (simp add: less_mult_imp_div_less mult.commute)
    from 1(1) [OF False k'(2) this] False k' show ?thesis
      by (subst fmt_u.simps) simp
  qed
qed

lemma fmt_u_nonempty: "fmt_u n \<noteq> []"
  by (subst fmt_u.simps) simp

lemma read_u_fmt_u: "read_u acc (fmt_u n @ rest) = read_u (acc * 10 ^ length (fmt_u n) + n) rest"
proof (induction n arbitrary: acc rest rule: fmt_u.induct)
  case (1 n)
  show ?case
  proof (cases "n < 10")
    case True
    then have "fmt_u n = [digit_char n]"
      by (subst fmt_u.simps) simp
    with True show ?thesis
      by (simp add: digit_char_props)
  next
    case False
    have d: "n mod 10 < 10"
      by simp
    have f: "fmt_u n = fmt_u (n div 10) @ [digit_char (n mod 10)]"
      using False by (subst fmt_u.simps) simp
    have "read_u acc (fmt_u n @ rest) = read_u acc (fmt_u (n div 10) @ (digit_char (n mod 10) # rest))"
      by (simp add: f)
    also have "\<dots> = read_u (acc * 10 ^ length (fmt_u (n div 10)) + n div 10) (digit_char (n mod 10) # rest)"
      by (rule 1 [OF False])
    also have "\<dots> = read_u ((acc * 10 ^ length (fmt_u (n div 10)) + n div 10) * 10 + n mod 10) rest"
      using digit_char_props [OF d] by simp
    also have "(acc * 10 ^ length (fmt_u (n div 10)) + n div 10) * 10 + n mod 10 =
        acc * 10 ^ length (fmt_u n) + n"
      by (simp add: f algebra_simps)
    finally show ?thesis .
  qed
qed

lemma strip_prefix_append: "strip_prefix p (p @ r) = Some r"
  by (simp add: strip_prefix_def)

lemma frame_header_full:
  assumes "n < 2 ^ 32"
  shows "frame_header n = ''--frame'' @ CRLF @ ''Content-Length: '' @ fmt_u n @ CRLF @ CRLF"
proof -
  have "n < 10 ^ 10"
    using assms by simp
  then have "length (fmt_u n) \<le> 10"
    by (intro fmt_u_length) simp_all
  then show ?thesis
    by (simp add: frame_header_def snprintf_def CRLF_def)
qed

lemma read_record_frame:
  assumes "len fb < 2 ^ 32"
  shows "read_record (frame_record fb @ rest) = Some (buf fb, rest)"
proof -
  let ?p = "''--frame'' @ CRLF @ ''Content-Length: ''"
  let ?r2 = "CRLF @ CRLF @ buf fb @ CRLF @ rest"
  let ?r1 = "fmt_u (len fb) @ ?r2"
  have whole: "frame_record fb @ rest = ?p @ ?r1"
    by (simp add: frame_record_def frame_header_full [OF assms])
  have num: "read_u 0 ?r1 = (len fb, ?r2)"
    unfolding read_u_fmt_u by (simp add: CRLF_def is_digit_def)
  have shorter: "length ?r2 \<noteq> length ?r1"
    using fmt_u_nonempty [of "len fb"] by simp
  have s2: "strip_prefix (CRLF @ CRLF) ?r2 = Some (buf fb @ CRLF @ rest)"
    using strip_prefix_append [of "CRLF @ CRLF" "buf fb @ CRLF @ rest"] by simp
  have s3: "strip_prefix CRLF (drop (len fb) (buf fb @ CRLF @ rest)) = Some rest"
    using strip_prefix_append [of CRLF rest] by (simp add: len_def)
  have "read_record (?p @ ?r1) = Some (take (len fb) (buf fb @ CRLF @ rest), rest)"
    unfolding read_record_def strip_prefix_append option.case num prod.case Let_def s2 s3
    using shorter by (simp add: len_def)
  then show ?thesis
    unfolding whole by (simp add: len_def)
qed

lemma frame_record_nonempty: "frame_record fb \<noteq> []"
  by (simp add: frame_record_def CRLF_def)

lemma read_records_fuel_step:
  "bs \<noteq> [] \<Longrightarrow> read_records_fuel (Suc fuel) bs =
     (case read_record bs of None \<Rightarrow> None
      | Some (payload, rest) \<Rightarrow> map_option ((#) payload) (read_records_fuel fuel rest))"
  by (cases bs) simp_all

lemma read_records_fuel_frames:
  "length fbs \<le> fuel \<Longrightarrow> \<forall>fb \<in> set fbs. len fb < 2 ^ 32 \<Longrightarrow>
     read_records_fuel fuel (concat (map frame_record fbs)) = Some (map buf fbs)"
proof (induction fbs arbitrary: fuel)
  case Nil
  then show ?case by simp
next
  case (Cons fb fbs)
  then obtain fuel' where fuel: "fuel = Suc fuel'" "length fbs \<le> fuel'"
    by (cases fuel) auto
  have ne: "frame_record fb @ concat (map frame_record fbs) \<noteq> []"
    using frame_record_nonempty by simp
  have one: "read_record (frame_record fb @ concat (map frame_record fbs)) =
      Some (buf fb, concat (map frame_record fbs))"
    using Cons.prems(2) by (intro read_record_frame) simp
  have rest: "read_records_fuel fuel' (concat (map frame_record fbs)) = Some (map buf fbs)"
    using Cons.IH [OF fuel(2)] Cons.prems(2) by simp
  show ?case
    unfolding fuel(1) concat.simps list.map read_records_fuel_step [OF ne] one
    by (simp add: rest)
qed

lemma length_concat_records: "length fbs \<le> length (concat (map frame_record fbs))"
proof (induction fbs)
  case Nil
  then show ?case by simp
next
  case (Cons fb fbs)
  have "1 \<le> length (frame_record fb)"
    using frame_record_nonempty [of fb] by (cases "frame_record fb") simp_all
  moreover have "length (concat (map frame_record (fb # fbs))) =
      length (frame_record fb) + length (concat (map frame_record fbs))"
    by simp
  moreover have "length (fb # fbs) = Suc (length fbs)"
    by simp
  ultimately show ?case
    using Cons by linarith
qed

lemma read_records_frames:
  "\<forall>fb \<in> set fbs. len fb < 2 ^ 32 \<Longrightarrow>
     read_records (concat (map frame_record fbs)) = Some (map buf fbs)"
  unfolding read_records_def
  by (rule read_records_fuel_frames [OF length_concat_records])

text \<open>What a run of complete frame writes leaves in an open recording.\<close>

lemma write_video_frame_complete:
  assumes "video_file s = Some path" "is_recording s" "sd_files s path = Some old"
    and "length (frame_header (len fb)) \<le> a1" "len fb \<le> a2" "2 \<le> a3"
  shows "video_file (snd (write_video_frame fb (a1, a2, a3) s)) = Some path"
    and "is_recording (snd (write_video_frame fb (a1, a2, a3) s))"
    and "sd_files (snd (write_video_frame fb (a1, a2, a3) s)) path = Some (old @ frame_record fb)"
    and "video_frame_count (snd (write_video_frame fb (a1, a2, a3) s)) = video_frame_count s + 1"
    and "recording_start_ms (snd (write_video_frame fb (a1, a2, a3) s)) = recording_start_ms s"
    and "trace (snd (write_video_frame fb (a1, a2, a3) s)) = trace s"
  using assms
  by (simp_all add: write_video_frame_def file_write_def frame_record_def len_def CRLF_def)

lemma append_frames_complete:
  "video_file s = Some path \<Longrightarrow> is_recording s \<Longrightarrow> sd_files s path = Some old \<Longrightarrow>
   complete_writes frames \<Longrightarrow>
   video_file (append_frames frames s) = Some path \<and>
   is_recording (append_frames frames s) \<and>
   sd_files (append_frames frames s) path = Some (old @ concat (map frame_record (map fst frames))) \<and>
   video_frame_count (append_frames frames s) = video_frame_count s + word_of_nat (length frames) \<and>
   recording_start_ms (append_frames frames s) = recording_start_ms s \<and>
   trace (append_frames frames s) = trace s"
proof (induction frames arbitrary: s old)
  case Nil
  then show ?case
    by simp
next
  case (Cons f frames)
  obtain fb a1 a2 a3 where f: "f = (fb, a1, a2, a3)"
    by (cases f) auto
  let ?s = "snd (write_video_frame fb (a1, a2, a3) s)"
  have w: "length (frame_header (len fb)) \<le> a1" "len fb \<le> a2" "2 \<le> a3" and rest: "complete_writes frames"
    using Cons.prems(4) f by (simp_all add: complete_writes_def)
  note one = write_video_frame_complete [OF Cons.prems(1-3) w]
  from Cons.IH [OF one(1-3) rest] show ?case
    by (simp add: f one(4-6) add.assoc)
qed

lemma write_video_frame_v23_complete:
  assumes "video_file s = Some path" "is_recording s" "sd_files s path = Some old"
    and "length boundary_v23 \<le> a1" "len fb \<le> a2" "2 \<le> a3"
  shows "video_file (snd (write_video_frame_v23 fb (a1, a2, a3) s)) = Some path"
    and "is_recording (snd (write_video_frame_v23 fb (a1, a2, a3) s))"
    and "sd_files (snd (write_video_frame_v23 fb (a1, a2, a3) s)) path = Some (old @ frame_record_v23 fb)"
    and "video_frame_count (snd (write_video_frame_v23 fb (a1, a2, a3) s)) = video_frame_count s + 1"
    and "recording_start_ms (snd (write_video_frame_v23 fb (a1, a2, a3) s)) = recording_start_ms s"
    and "trace (snd (write_video_frame_v23 fb (a1, a2, a3) s)) = trace s"
  using assms
  by (simp_all add: write_video_frame_v23_def file_write_def frame_record_v23_def len_def CRLF_def)

lemma append_frames_v23_complete:
  "video_file s = Some path \<Longrightarrow> is_recording s \<Longrightarrow> sd_files s path = Some old \<Longrightarrow>
   complete_writes_v23 frames \<Longrightarrow>
   video_file (append_frames_v23 frames s) = Some path \<and>
   is_recording (append_frames_v23 frames s) \<and>
   sd_files (append_frames_v23 frames s) path = Some (old @ concat (map frame_record_v23 (map fst frames))) \<and>
   video_frame_count (append_frames_v23 frames s) = video_frame_count s + word_of_nat (length frames) \<and>
   recording_start_ms (append_frames_v23 frames s) = recording_start_ms s \<and>
   trace (append_frames_v23 frames s) = trace s"
proof (induction frames arbitrary: s old)
  case Nil
  then show ?case
    by simp
next
  case (Cons f frames)
  obtain fb a1 a2 a3 where f: "f = (fb, a1, a2, a3)"
    by (cases f) auto
  let ?s = "snd (write_video_frame_v23 fb (a1, a2, a3) s)"
  have w: "length boundary_v23 \<le> a1" "len fb \<le> a2" "2 \<le> a3" and rest: "complete_writes_v23 frames"
    using Cons.prems(4) f by (simp_all add: complete_writes_v23_def)
  note one = write_video_frame_v23_complete [OF Cons.prems(1-3) w]
  from Cons.IH [OF one(1-3) rest] show ?case
    by (simp add: f one(4-6) add.assoc)
qed

lemma start_recording_fields:
  fixes s :: device and t0 :: u32
  defines "path \<equiv> snprintf 64 (''/videos/VID_'' @ fmt_04u (unat (video_counter s)) @ ''.mjpeg'')"
  defines "s1 \<equiv> snd (start_video_recording True t0 s)"
  assumes "sd_available s" "\<not> is_recording s"
  shows "video_file s1 = Some path" "is_recording s1" "sd_files s1 path = Some []"
    "video_frame_count s1 = 0" "recording_start_ms s1 = t0"
    "trace s1 = trace s @ [LogPushf ''[rec] started: %s'' [S path]]"
  using assms(3,4) unfolding path_def s1_def
  by (simp_all add: start_video_recording_def Let_def log_call_def emit_def sd_open_write_def)

lemma fps_arg_count:
  "F < 2 ^ 32 \<Longrightarrow> fps_arg (word_of_nat F) d = (if d > 0 then FQuot (F * 1000) (unat d) else FZero)"
  by (simp add: fps_arg_def unat_of_nat)

lemma frame_header_4:
  "frame_header (len \<lparr>buf = ''JPEG'', width = 320, height = 240\<rparr>) =
     ''--frame'' @ CRLF @ ''Content-Length: 4'' @ CRLF @ CRLF"
proof -
  have "fmt_u 4 = ''4''"
    by code_simp
  moreover have "len \<lparr>buf = ''JPEG'', width = 320, height = 240\<rparr> = 4"
    by (simp add: len_def)
  ultimately show ?thesis
    by (simp add: frame_header_def snprintf_def CRLF_def)
qed

text \<open>
  C2, as the code has it. After a successful \<open>start_video_recording\<close>, one
  \<open>write_video_frame\<close> call per frame whose three writes the card accepts in full, and
  \<open>stop_video_recording\<close>, the file named after the old video counter holds exactly the
  records of the frames in order, each
  \<^verbatim>\<open>--frame\r\nContent-Length: <n>\r\n\r\n<n bytes>\r\n\<close>, with no content type line.
  A reader that relies on the length header alone gets back exactly the payloads. The
  summary line carries the frame count, the elapsed milliseconds and the rate as the
  quotient of the count times 1000 by the elapsed milliseconds (zero when no
  millisecond has elapsed); the quotient is evaluated in floating point, which is not
  modelled. In the v2.3 revision each record is
  \<^verbatim>\<open>--frame\r\nContent-Type: image/jpeg\r\n\r\n<bytes>\r\n\<close>, with no length header.
\<close>

theorem recording_file_format:
  "(sd_available s \<and> \<not> is_recording s \<and> complete_writes frames \<and>
    (\<forall>fb \<in> set (map fst frames). len fb < 2 ^ 32) \<and> length frames < 2 ^ 32 \<longrightarrow>
      (let path = snprintf 64 (''/videos/VID_'' @ fmt_04u (unat (video_counter s)) @ ''.mjpeg'');
           s' = record_session True t0 frames t1 s;
           content = concat (map frame_record (map fst frames))
       in sd_files s' path = Some content \<and>
          read_records content = Some (map buf (map fst frames)) \<and>
          \<not> is_recording s' \<and>
          trace s' = trace s @
            [LogPushf ''[rec] started: %s'' [S path],
             LogPushf ''[rec] stopped: %u frames, %.1fs, %.1f fps''
               [U (word_of_nat (length frames)), FQuot (unat (t1 - t0)) 1000,
                if t1 - t0 > 0 then FQuot (length frames * 1000) (unat (t1 - t0)) else FZero]] \<and>
          unat (word_of_nat (length frames) :: u32) = length frames)) \<and>
   (sd_available s \<and> \<not> is_recording s \<and> complete_writes_v23 frames \<longrightarrow>
      (let path = snprintf 64 (''/videos/VID_'' @ fmt_04u (unat (video_counter s)) @ ''.mjpeg'')
       in sd_files (record_session_v23 True t0 frames t1 s) path =
            Some (concat (map frame_record_v23 (map fst frames)))))"
proof -
  let ?path = "snprintf 64 (''/videos/VID_'' @ fmt_04u (unat (video_counter s)) @ ''.mjpeg'')"
  let ?s1 = "snd (start_video_recording True t0 s)"
  have main: "let path = ?path; s' = record_session True t0 frames t1 s;
           content = concat (map frame_record (map fst frames))
       in sd_files s' path = Some content \<and>
          read_records content = Some (map buf (map fst frames)) \<and>
          \<not> is_recording s' \<and>
          trace s' = trace s @
            [LogPushf ''[rec] started: %s'' [S path],
             LogPushf ''[rec] stopped: %u frames, %.1fs, %.1f fps''
               [U (word_of_nat (length frames)), FQuot (unat (t1 - t0)) 1000,
                if t1 - t0 > 0 then FQuot (length frames * 1000) (unat (t1 - t0)) else FZero]] \<and>
          unat (word_of_nat (length frames) :: u32) = length frames"
    if h: "sd_available s" "\<not> is_recording s" "complete_writes frames"
      "\<forall>fb \<in> set (map fst frames). len fb < 2 ^ 32" "length frames < 2 ^ 32"
  proof -
    note st = start_recording_fields [OF h(1,2), of t0]
    note ap = append_frames_complete [OF st(1-3) h(3)]
    let ?s2 = "append_frames frames ?s1"
    have rec: "is_recording ?s2"
      using ap by simp
    have "sd_files (stop_video_recording t1 ?s2) ?path = sd_files ?s2 ?path"
      by (simp add: stop_video_recording_def Let_def log_call_def emit_def)
    then have fl: "sd_files (record_session True t0 frames t1 s) ?path =
        Some (concat (map frame_record (map fst frames)))"
      using ap by (simp add: record_session_def)
    have stopped: "\<not> is_recording (record_session True t0 frames t1 s)"
      by (simp add: record_session_def stop_video_recording_def Let_def log_call_def emit_def)
    have tr: "trace (record_session True t0 frames t1 s) = trace s @
            [LogPushf ''[rec] started: %s'' [S ?path],
             LogPushf ''[rec] stopped: %u frames, %.1fs, %.1f fps''
               [U (word_of_nat (length frames)), FQuot (unat (t1 - t0)) 1000,
                if t1 - t0 > 0 then FQuot (length frames * 1000) (unat (t1 - t0)) else FZero]]"
      using rec ap st(4-6) fps_arg_count [OF h(5), of "t1 - t0"]
      by (simp add: record_session_def stop_video_recording_def Let_def log_call_def emit_def)
    have rd: "read_records (concat (map frame_record (map fst frames))) = Some (map buf (map fst frames))"
      using h(4) by (rule read_records_frames)
    have cnt: "unat (word_of_nat (length frames) :: u32) = length frames"
      using h(5) by (simp add: unat_of_nat)
    from fl rd stopped tr cnt show ?thesis
      by (simp add: Let_def)
  qed
  have v23: "let path = ?path
       in sd_files (record_session_v23 True t0 frames t1 s) path =
            Some (concat (map frame_record_v23 (map fst frames)))"
    if h: "sd_available s" "\<not> is_recording s" "complete_writes_v23 frames"
  proof -
    note st = start_recording_fields [OF h(1,2), of t0]
    note ap = append_frames_v23_complete [OF st(1-3) h(3)]
    let ?s2 = "append_frames_v23 frames ?s1"
    have "sd_files (stop_video_recording_v23 t1 ?s2) ?path = sd_files ?s2 ?path"
      by (simp add: stop_video_recording_v23_def Let_def log_call_def emit_def)
    then show ?thesis
      using ap by (simp add: record_session_v23_def)
  qed
  from main v23 show ?thesis
    by blast
qed

theorem recording_file_format_witness:
  "sd_files (record_session True 1000 [(\<lparr>buf = ''JPEG'', width = 320, height = 240\<rparr>, 64, 4, 2)] 2000
      (boot\<lparr>sd_available := True\<rparr>)) ''/videos/VID_0000.mjpeg'' =
     Some (frame_record \<lparr>buf = ''JPEG'', width = 320, height = 240\<rparr>) \<and>
   read_records (frame_record \<lparr>buf = ''JPEG'', width = 320, height = 240\<rparr>) = Some [''JPEG''] \<and>
   sd_files (record_session_v23 True 1000 [(\<lparr>buf = ''JPEG'', width = 320, height = 240\<rparr>, 64, 4, 2)] 2000
      (boot\<lparr>sd_available := True\<rparr>)) ''/videos/VID_0000.mjpeg'' =
     Some (frame_record_v23 \<lparr>buf = ''JPEG'', width = 320, height = 240\<rparr>)"
proof -
  let ?fb = "\<lparr>buf = ''JPEG'', width = 320, height = 240\<rparr>"
  let ?fr = "[(?fb, 64 :: nat, 4 :: nat, 2 :: nat)]"
  let ?s = "boot\<lparr>sd_available := True\<rparr>"
  have l: "len ?fb = 4"
    by (simp add: len_def)
  have h1: "sd_available ?s \<and> \<not> is_recording ?s \<and> complete_writes ?fr \<and>
      (\<forall>fb \<in> set (map fst ?fr). len fb < 2 ^ 32) \<and> length ?fr < 2 ^ 32"
    using frame_header_4 by (simp add: boot_def complete_writes_def l CRLF_def)
  have h2: "sd_available ?s \<and> \<not> is_recording ?s \<and> complete_writes_v23 ?fr"
    by (simp add: boot_def complete_writes_v23_def boundary_v23_def l CRLF_def)
  have p: "snprintf 64 (''/videos/VID_'' @ fmt_04u (unat (video_counter ?s)) @ ''.mjpeg'') =
      ''/videos/VID_0000.mjpeg''"
    by (simp add: boot_def snprintf_def fmt_04u_small)
  from recording_file_format [of ?s ?fr 1000 2000] h1
  have c1: "let path = snprintf 64 (''/videos/VID_'' @ fmt_04u (unat (video_counter ?s)) @ ''.mjpeg'');
           s' = record_session True 1000 ?fr 2000 ?s;
           content = concat (map frame_record (map fst ?fr))
       in sd_files s' path = Some content \<and>
          read_records content = Some (map buf (map fst ?fr)) \<and>
          \<not> is_recording s' \<and>
          trace s' = trace ?s @
            [LogPushf ''[rec] started: %s'' [S path],
             LogPushf ''[rec] stopped: %u frames, %.1fs, %.1f fps''
               [U (word_of_nat (length ?fr)), FQuot (unat ((2000 :: u32) - 1000)) 1000,
                if (2000 :: u32) - 1000 > 0 then FQuot (length ?fr * 1000) (unat ((2000 :: u32) - 1000)) else FZero]] \<and>
          unat (word_of_nat (length ?fr) :: u32) = length ?fr"
    by (rule conjunct1 [THEN mp])
  from recording_file_format [of ?s ?fr 1000 2000] h2
  have c2: "let path = snprintf 64 (''/videos/VID_'' @ fmt_04u (unat (video_counter ?s)) @ ''.mjpeg'')
       in sd_files (record_session_v23 True 1000 ?fr 2000 ?s) path =
            Some (concat (map frame_record_v23 (map fst ?fr)))"
    by (rule conjunct2 [THEN mp])
  from c1 c2 show ?thesis
    unfolding p Let_def by simp
qed

text \<open>
  C2 as stated fails: a session of one four-byte frame leaves a record without the
  content type line, which is not the record of the specification.
\<close>

theorem recording_file_format_counterexample:
  "sd_files (record_session True 1000 [(\<lparr>buf = ''JPEG'', width = 320, height = 240\<rparr>, 64, 4, 2)] 2000
      (boot\<lparr>sd_available := True\<rparr>)) ''/videos/VID_0000.mjpeg'' =
     Some (''--frame'' @ CRLF @ ''Content-Length: 4'' @ CRLF @ CRLF @ ''JPEG'' @ CRLF) \<and>
   sd_files (record_session True 1000 [(\<lparr>buf = ''JPEG'', width = 320, height = 240\<rparr>, 64, 4, 2)] 2000
      (boot\<lparr>sd_available := True\<rparr>)) ''/videos/VID_0000.mjpeg'' \<noteq>
     Some (concat (map spec_frame_record [''JPEG'']))"
  by (simp add: record_session_def start_video_recording_def stop_video_recording_def
      write_video_frame_def file_write_def sd_open_write_def snprintf_def
      log_call_def emit_def Let_def boot_def frame_header_4 fmt_04u_small CRLF_def
      spec_frame_record_def)

section \<open>Properties of the button\<close>

subsection \<open>What the polling loop leaves alone\<close>

text \<open>
  No statement of the loop writes the pressed state, the two times or the long-press
  flag, and the only one that writes the pending flag is the one that clears it.
\<close>

lemma view_basic [simp]:
  "button_view (emit ev s) = button_view s"
  "button_view (log_call fmt args s) = button_view s"
  "button_view (set_flash on s) = button_view s"
  "button_view (delay ms s) = button_view s"
  "button_view (set_capture_mode s) = button_view s"
  "button_view (set_stream_mode s) = button_view s"
  "button_view (esp_camera_fb_get s) = button_view s"
  "button_view (esp_camera_fb_return s) = button_view s"
  "button_view (file_write a p d s) = button_view s"
  "button_view (sd_open_write ok p s) = button_view s"
  by (simp_all add: button_view_def emit_def log_call_def set_flash_def delay_def
      set_capture_mode_def set_stream_mode_def esp_camera_fb_get_def esp_camera_fb_return_def
      file_write_def sd_open_write_def)

lemma pending_basic [simp]:
  "button_event_pending (emit ev s) = button_event_pending s"
  "button_event_pending (log_call fmt args s) = button_event_pending s"
  "button_event_pending (set_flash on s) = button_event_pending s"
  "button_event_pending (delay ms s) = button_event_pending s"
  "button_event_pending (set_capture_mode s) = button_event_pending s"
  "button_event_pending (set_stream_mode s) = button_event_pending s"
  "button_event_pending (esp_camera_fb_get s) = button_event_pending s"
  "button_event_pending (esp_camera_fb_return s) = button_event_pending s"
  "button_event_pending (file_write a p d s) = button_event_pending s"
  "button_event_pending (sd_open_write ok p s) = button_event_pending s"
  by (simp_all add: emit_def log_call_def set_flash_def delay_def
      set_capture_mode_def set_stream_mode_def esp_camera_fb_get_def esp_camera_fb_return_def
      file_write_def sd_open_write_def)

lemma view_update [simp]:
  "button_view (s\<lparr>button_event_pending := b\<rparr>) = button_view s"
  "button_view (s\<lparr>is_recording := r\<rparr>) = button_view s"
  "button_view (s\<lparr>recording_start_ms := t\<rparr>) = button_view s"
  "button_view (s\<lparr>current_video_path := p\<rparr>) = button_view s"
  "button_view (s\<lparr>video_file := f\<rparr>) = button_view s"
  "button_view (s\<lparr>video_frame_count := n\<rparr>) = button_view s"
  "button_view (s\<lparr>photo_counter := n\<rparr>) = button_view s"
  "button_view (s\<lparr>video_counter := n\<rparr>) = button_view s"
  "button_view (s\<lparr>last_rec_log := t\<rparr>) = button_view s"
  by (simp_all add: button_view_def)

lemma save_photo_button:
  "button_view (snd (save_photo_to_sd fbp ok acc s)) = button_view s"
  "button_event_pending (snd (save_photo_to_sd fbp ok acc s)) = button_event_pending s"
  by (simp_all add: save_photo_to_sd_def Let_def split: option.splits)

lemma start_recording_button:
  "button_view (snd (start_video_recording ok t s)) = button_view s"
  "button_event_pending (snd (start_video_recording ok t s)) = button_event_pending s"
  by (simp_all add: start_video_recording_def Let_def)

lemma stop_recording_button:
  "button_view (stop_video_recording t s) = button_view s"
  "button_event_pending (stop_video_recording t s) = button_event_pending s"
  by (simp_all add: stop_video_recording_def Let_def)

lemma write_frame_button:
  "button_view (snd (write_video_frame fb acc s)) = button_view s"
  "button_event_pending (snd (write_video_frame fb acc s)) = button_event_pending s"
  by (simp_all add: write_video_frame_def Let_def case_prod_beta split: option.splits)

lemma start_action_button:
  "button_view (start_action e s) = button_view s"
  "button_event_pending (start_action e s) = button_event_pending s"
  by (simp_all add: start_action_def Let_def case_prod_beta start_recording_button)

lemma stop_action_button:
  "button_view (stop_action e s) = button_view s"
  "button_event_pending (stop_action e s) = button_event_pending s"
  by (simp_all add: stop_action_def stop_recording_button)

lemma take_photo_button:
  "button_view (take_photo e s) = button_view s"
  "button_event_pending (take_photo e s) = button_event_pending s"
  by (simp_all add: take_photo_def Let_def case_prod_beta save_photo_button split: option.splits)

lemma recording_loop_button:
  "button_view (recording_loop e s) = button_view s"
  "button_event_pending (recording_loop e s) = button_event_pending s"
  by (simp_all add: recording_loop_def Let_def write_frame_button split: option.splits)

lemmas action_button = start_action_button stop_action_button take_photo_button recording_loop_button

lemma micro_view:
  "button_view (snd (micro p e v s)) = button_view s"
  by (cases p) (simp_all add: action_button)

lemma micro_pending:
  "button_event_pending (snd (micro p e v s)) =
     (button_event_pending s \<and> \<not> (p = L_clear \<and> cond_pending v))"
  by (cases p) (simp_all add: action_button)

lemma micro_cond_pending:
  "cond_pending (fst (micro p e v s)) =
     (if p = L_test_pending then button_event_pending s else cond_pending v)"
  by (cases p) simp_all

lemma view_fields:
  assumes "button_view s' = button_view s"
  shows "button_pressed s' = button_pressed s" "button_press_time s' = button_press_time s"
    "button_release_time s' = button_release_time s" "is_long_press s' = is_long_press s"
  using assms by (simp_all add: button_view_def)

subsection \<open>The interrupt handler commutes with the actions\<close>

text \<open>
  Every statement an action is made of gives the same result whatever the five button
  variables hold and leaves them as they are, so the handler can be moved across it:
  an edge handled in the middle of an action leaves the same state as the same edge
  handled at its start or at its end.
\<close>

lemma set_button_statement:
  "emit ev (set_button p tp tr pend lp s) = set_button p tp tr pend lp (emit ev s)"
  "log_call fmt args (set_button p tp tr pend lp s) = set_button p tp tr pend lp (log_call fmt args s)"
  "set_flash on (set_button p tp tr pend lp s) = set_button p tp tr pend lp (set_flash on s)"
  "delay ms (set_button p tp tr pend lp s) = set_button p tp tr pend lp (delay ms s)"
  "set_capture_mode (set_button p tp tr pend lp s) = set_button p tp tr pend lp (set_capture_mode s)"
  "set_stream_mode (set_button p tp tr pend lp s) = set_button p tp tr pend lp (set_stream_mode s)"
  "esp_camera_fb_get (set_button p tp tr pend lp s) = set_button p tp tr pend lp (esp_camera_fb_get s)"
  "esp_camera_fb_return (set_button p tp tr pend lp s) = set_button p tp tr pend lp (esp_camera_fb_return s)"
  "file_write a path d (set_button p tp tr pend lp s) = set_button p tp tr pend lp (file_write a path d s)"
  "sd_open_write ok path (set_button p tp tr pend lp s) = set_button p tp tr pend lp (sd_open_write ok path s)"
  by (simp_all add: set_button_def emit_def log_call_def set_flash_def delay_def
      set_capture_mode_def set_stream_mode_def esp_camera_fb_get_def esp_camera_fb_return_def
      file_write_def sd_open_write_def)

lemma set_button_reads:
  "is_recording (set_button p tp tr pend lp s) = is_recording s"
  "sd_available (set_button p tp tr pend lp s) = sd_available s"
  "video_file (set_button p tp tr pend lp s) = video_file s"
  "video_counter (set_button p tp tr pend lp s) = video_counter s"
  "photo_counter (set_button p tp tr pend lp s) = photo_counter s"
  "video_frame_count (set_button p tp tr pend lp s) = video_frame_count s"
  "recording_start_ms (set_button p tp tr pend lp s) = recording_start_ms s"
  "current_video_path (set_button p tp tr pend lp s) = current_video_path s"
  "last_rec_log (set_button p tp tr pend lp s) = last_rec_log s"
  "sd_files (set_button p tp tr pend lp s) = sd_files s"
  "trace (set_button p tp tr pend lp s) = trace s"
  by (simp_all add: set_button_def)

lemma set_button_writes:
  "(set_button p tp tr pend lp s)\<lparr>is_recording := r\<rparr> = set_button p tp tr pend lp (s\<lparr>is_recording := r\<rparr>)"
  "(set_button p tp tr pend lp s)\<lparr>video_file := f\<rparr> = set_button p tp tr pend lp (s\<lparr>video_file := f\<rparr>)"
  "(set_button p tp tr pend lp s)\<lparr>video_counter := n\<rparr> = set_button p tp tr pend lp (s\<lparr>video_counter := n\<rparr>)"
  "(set_button p tp tr pend lp s)\<lparr>photo_counter := n\<rparr> = set_button p tp tr pend lp (s\<lparr>photo_counter := n\<rparr>)"
  "(set_button p tp tr pend lp s)\<lparr>video_frame_count := n\<rparr> = set_button p tp tr pend lp (s\<lparr>video_frame_count := n\<rparr>)"
  "(set_button p tp tr pend lp s)\<lparr>recording_start_ms := t\<rparr> = set_button p tp tr pend lp (s\<lparr>recording_start_ms := t\<rparr>)"
  "(set_button p tp tr pend lp s)\<lparr>current_video_path := q\<rparr> = set_button p tp tr pend lp (s\<lparr>current_video_path := q\<rparr>)"
  "(set_button p tp tr pend lp s)\<lparr>last_rec_log := t\<rparr> = set_button p tp tr pend lp (s\<lparr>last_rec_log := t\<rparr>)"
  by (simp_all add: set_button_def)

lemma set_button_start_recording:
  "start_video_recording ok t (set_button p tp tr pend lp s) =
     (fst (start_video_recording ok t s), set_button p tp tr pend lp (snd (start_video_recording ok t s)))"
  by (simp add: start_video_recording_def Let_def set_button_statement set_button_reads set_button_writes)

lemma set_button_stop_recording:
  "stop_video_recording t (set_button p tp tr pend lp s) =
     set_button p tp tr pend lp (stop_video_recording t s)"
  by (simp add: stop_video_recording_def Let_def set_button_statement set_button_reads set_button_writes)

lemma set_button_save_photo:
  "save_photo_to_sd fbp ok acc (set_button p tp tr pend lp s) =
     (fst (save_photo_to_sd fbp ok acc s), set_button p tp tr pend lp (snd (save_photo_to_sd fbp ok acc s)))"
  by (simp add: save_photo_to_sd_def Let_def set_button_statement set_button_reads set_button_writes
      split: option.splits)

lemma set_button_write_frame:
  "write_video_frame fb acc (set_button p tp tr pend lp s) =
     (fst (write_video_frame fb acc s), set_button p tp tr pend lp (snd (write_video_frame fb acc s)))"
  by (simp add: write_video_frame_def Let_def case_prod_beta set_button_statement set_button_reads
      set_button_writes split: option.splits)

lemma set_button_start_action:
  "start_action e (set_button p tp tr pend lp s) = set_button p tp tr pend lp (start_action e s)"
  by (simp add: start_action_def Let_def case_prod_beta set_button_statement
      set_button_start_recording)

lemma set_button_stop_action:
  "stop_action e (set_button p tp tr pend lp s) = set_button p tp tr pend lp (stop_action e s)"
  by (simp add: stop_action_def set_button_statement set_button_stop_recording)

lemma set_button_take_photo:
  "take_photo e (set_button p tp tr pend lp s) = set_button p tp tr pend lp (take_photo e s)"
  by (cases "fb_photo e")
     (simp_all add: take_photo_def Let_def case_prod_beta set_button_statement
      set_button_save_photo)

lemma set_button_recording_loop:
  "recording_loop e (set_button p tp tr pend lp s) = set_button p tp tr pend lp (recording_loop e s)"
  by (cases "fb_rec e")
     (simp_all add: recording_loop_def Let_def set_button_statement set_button_reads
      set_button_writes set_button_write_frame)

lemmas set_button_action = set_button_start_action set_button_stop_action set_button_take_photo
  set_button_recording_loop

lemma isr_set_button:
  "button_isr now lvl s =
     set_button (button_pressed (button_isr now lvl s)) (button_press_time (button_isr now lvl s))
       (button_release_time (button_isr now lvl s)) (button_event_pending (button_isr now lvl s))
       (is_long_press (button_isr now lvl s)) s"
  by (simp add: button_isr_def set_button_def)

lemma isr_reads:
  assumes "button_view s' = button_view s" "button_event_pending s' = button_event_pending s"
  shows "button_pressed (button_isr now lvl s') = button_pressed (button_isr now lvl s)"
    "button_press_time (button_isr now lvl s') = button_press_time (button_isr now lvl s)"
    "button_release_time (button_isr now lvl s') = button_release_time (button_isr now lvl s)"
    "button_event_pending (button_isr now lvl s') = button_event_pending (button_isr now lvl s)"
    "is_long_press (button_isr now lvl s') = is_long_press (button_isr now lvl s)"
  using assms by (simp_all add: button_isr_def button_view_def)

lemma isr_commutes_with:
  assumes f: "\<And>p tp tr pend lp s. f (set_button p tp tr pend lp s) = set_button p tp tr pend lp (f s)"
    and v: "button_view (f s) = button_view s" "button_event_pending (f s) = button_event_pending s"
  shows "button_isr now lvl (f s) = f (button_isr now lvl s)"
proof -
  have "button_isr now lvl (f s) =
      set_button (button_pressed (button_isr now lvl s)) (button_press_time (button_isr now lvl s))
       (button_release_time (button_isr now lvl s)) (button_event_pending (button_isr now lvl s))
       (is_long_press (button_isr now lvl s)) (f s)"
    by (subst isr_set_button) (simp only: isr_reads [OF v])
  also have "\<dots> = f (button_isr now lvl s)"
    by (subst (2) isr_set_button) (simp only: f)
  finally show ?thesis .
qed

lemma isr_commutes:
  "button_isr now lvl (start_action e s) = start_action e (button_isr now lvl s)"
  "button_isr now lvl (stop_action e s) = stop_action e (button_isr now lvl s)"
  "button_isr now lvl (take_photo e s) = take_photo e (button_isr now lvl s)"
  "button_isr now lvl (recording_loop e s) = recording_loop e (button_isr now lvl s)"
  by (rule isr_commutes_with, rule set_button_action, rule action_button, rule action_button)+

lemma isr_commutes_statement:
  "button_isr now lvl (emit ev s) = emit ev (button_isr now lvl s)"
  "button_isr now lvl (log_call fmt args s) = log_call fmt args (button_isr now lvl s)"
  "button_isr now lvl (set_flash on s) = set_flash on (button_isr now lvl s)"
  "button_isr now lvl (delay ms s) = delay ms (button_isr now lvl s)"
  "button_isr now lvl (set_capture_mode s) = set_capture_mode (button_isr now lvl s)"
  "button_isr now lvl (set_stream_mode s) = set_stream_mode (button_isr now lvl s)"
  "button_isr now lvl (esp_camera_fb_get s) = esp_camera_fb_get (button_isr now lvl s)"
  "button_isr now lvl (esp_camera_fb_return s) = esp_camera_fb_return (button_isr now lvl s)"
  "button_isr now lvl (file_write a path d s) = file_write a path d (button_isr now lvl s)"
  "button_isr now lvl (sd_open_write ok path s) = sd_open_write ok path (button_isr now lvl s)"
  "button_isr now lvl (stop_video_recording t s) = stop_video_recording t (button_isr now lvl s)"
  "button_isr now lvl (snd (start_video_recording ok t s)) =
     snd (start_video_recording ok t (button_isr now lvl s))"
  "button_isr now lvl (snd (save_photo_to_sd fbp ok a s)) =
     snd (save_photo_to_sd fbp ok a (button_isr now lvl s))"
  "button_isr now lvl (snd (write_video_frame fb acc s)) =
     snd (write_video_frame fb acc (button_isr now lvl s))"
  "button_isr now lvl (s\<lparr>is_recording := r\<rparr>) = (button_isr now lvl s)\<lparr>is_recording := r\<rparr>"
  "button_isr now lvl (s\<lparr>video_frame_count := n\<rparr>) = (button_isr now lvl s)\<lparr>video_frame_count := n\<rparr>"
  "button_isr now lvl (s\<lparr>photo_counter := n\<rparr>) = (button_isr now lvl s)\<lparr>photo_counter := n\<rparr>"
  "button_isr now lvl (s\<lparr>video_counter := n\<rparr>) = (button_isr now lvl s)\<lparr>video_counter := n\<rparr>"
  "button_isr now lvl (s\<lparr>video_file := f\<rparr>) = (button_isr now lvl s)\<lparr>video_file := f\<rparr>"
  "button_isr now lvl (s\<lparr>recording_start_ms := t\<rparr>) = (button_isr now lvl s)\<lparr>recording_start_ms := t\<rparr>"
  "button_isr now lvl (s\<lparr>current_video_path := q\<rparr>) = (button_isr now lvl s)\<lparr>current_video_path := q\<rparr>"
  "button_isr now lvl (s\<lparr>last_rec_log := t\<rparr>) = (button_isr now lvl s)\<lparr>last_rec_log := t\<rparr>"
                      apply (rule isr_commutes_with, simp add: set_button_statement, simp, simp)+
             apply (rule isr_commutes_with, simp add: set_button_stop_recording, simp_all add: stop_recording_button)[1]
            apply (rule isr_commutes_with [where f = "\<lambda>s. snd (start_video_recording ok t s)"],
      simp add: set_button_start_recording, simp_all add: start_recording_button)[1]
           apply (rule isr_commutes_with [where f = "\<lambda>s. snd (save_photo_to_sd fbp ok a s)"],
      simp add: set_button_save_photo, simp_all add: save_photo_button)[1]
          apply (rule isr_commutes_with [where f = "\<lambda>s. snd (write_video_frame fb acc s)"],
      simp add: set_button_write_frame, simp_all add: write_frame_button)[1]
         apply (simp_all add: button_isr_def)
  done

subsection \<open>An interrupt inside an action\<close>

text \<open>
  The programs are the actions, every call in them lets the handler through, and so
  an action during which edges are handled, between any of its statements, leaves the
  state that the action leaves when the same edges are handled just before it.
\<close>

lemma atomic_Do [simp]: "atomic (Do f p) s = atomic p (f s)"
  by (simp add: Do_def)

lemma atomic_Test [simp]: "atomic (Test c p q) s = (if c s then atomic p s else atomic q s)"
  by (simp add: Test_def)

lemma atomic_actions:
  "atomic (start_action_prog e) s = start_action e s"
  "atomic (stop_action_prog e) s = stop_action e s"
  "atomic (take_photo_prog e) s = take_photo e s"
  "atomic (recording_loop_prog e) s = recording_loop e s"
     apply (simp add: start_action_prog_def start_action_def Let_def case_prod_beta)
    apply (simp add: stop_action_prog_def stop_action_def)
   apply (cases "fb_photo e"; simp add: take_photo_prog_def take_photo_def Let_def case_prod_beta)
  apply (cases "fb_rec e"; simp add: recording_loop_prog_def recording_loop_def Let_def log_call_def emit_def)
  done

lemma button_free_statement:
  assumes "\<And>now lvl s. button_isr now lvl (f s) = f (button_isr now lvl s)"
  shows "button_free (\<lambda>s. ((True, []), f s))"
  using assms by (simp add: button_free_def)

lemma blind_Do:
  assumes "\<And>now lvl s. button_isr now lvl (f s) = f (button_isr now lvl s)" "blind p"
  shows "blind (Do f p)"
  using assms by (simp add: Do_def button_free_def)

lemma isr_keeps_test:
  "is_recording (button_isr now lvl s) = is_recording s"
  "last_rec_log (button_isr now lvl s) = last_rec_log s"
  "recording_start_ms (button_isr now lvl s) = recording_start_ms s"
  "video_frame_count (button_isr now lvl s) = video_frame_count s"
  by (simp_all add: button_isr_def)

lemma blind_Test:
  assumes "\<And>now lvl s. c (button_isr now lvl s) = c s" "blind p" "blind q"
  shows "blind (Test c p q)"
  using assms by (simp add: Test_def button_free_def)

lemma isr_keeps_result_with:
  assumes f: "\<And>p tp tr pend lp s.
      f (set_button p tp tr pend lp s) = (fst (f s), set_button p tp tr pend lp (snd (f s)))"
    and v: "button_view (snd (f s)) = button_view s"
      "button_event_pending (snd (f s)) = button_event_pending s"
  shows "f (button_isr now lvl s) = (fst (f s), button_isr now lvl (snd (f s)))"
proof -
  have "button_isr now lvl (snd (f s)) =
      set_button (button_pressed (button_isr now lvl s)) (button_press_time (button_isr now lvl s))
       (button_release_time (button_isr now lvl s)) (button_event_pending (button_isr now lvl s))
       (is_long_press (button_isr now lvl s)) (snd (f s))"
    by (subst isr_set_button) (simp only: isr_reads [OF v])
  moreover have "f (button_isr now lvl s) =
      f (set_button (button_pressed (button_isr now lvl s)) (button_press_time (button_isr now lvl s))
       (button_release_time (button_isr now lvl s)) (button_event_pending (button_isr now lvl s))
       (is_long_press (button_isr now lvl s)) s)"
    by (rule arg_cong [where f = f], rule isr_set_button)
  ultimately show ?thesis
    by (simp only: f)
qed

lemma isr_keeps_results:
  "start_video_recording ok t (button_isr now lvl s) =
     (fst (start_video_recording ok t s), button_isr now lvl (snd (start_video_recording ok t s)))"
  "save_photo_to_sd fbp ok a (button_isr now lvl s) =
     (fst (save_photo_to_sd fbp ok a s), button_isr now lvl (snd (save_photo_to_sd fbp ok a s)))"
  "write_video_frame fb acc (button_isr now lvl s) =
     (fst (write_video_frame fb acc s), button_isr now lvl (snd (write_video_frame fb acc s)))"
  by (rule isr_keeps_result_with, rule set_button_start_recording, rule start_recording_button,
      rule start_recording_button)
    (rule isr_keeps_result_with, rule set_button_save_photo, rule save_photo_button,
      rule save_photo_button,
     rule isr_keeps_result_with, rule set_button_write_frame, rule write_frame_button,
      rule write_frame_button)

lemma button_free_calls:
  "button_free (\<lambda>s. ((fst (start_video_recording ok t s), []), snd (start_video_recording ok t s)))"
  "button_free (save_photo_to_sd fbp ok' a)"
  unfolding button_free_def by (simp_all add: isr_keeps_results)

lemma blind_actions:
  "blind (start_action_prog e)"
  "blind (stop_action_prog e)"
  "blind (take_photo_prog e)"
  "blind (recording_loop_prog e)"
proof -
  show "blind (start_action_prog e)"
    unfolding start_action_prog_def
    by (intro blind_Do) (simp_all add: isr_commutes_statement button_free_calls blind_Do)
  show "blind (stop_action_prog e)"
    unfolding stop_action_prog_def
    by (intro blind_Do) (simp_all add: isr_commutes_statement)
  show "blind (take_photo_prog e)"
    unfolding take_photo_prog_def
    by (cases "fb_photo e")
       (simp_all add: isr_commutes_statement button_free_calls blind_Do)
  show "blind (recording_loop_prog e)"
    unfolding recording_loop_prog_def
    by (cases "fb_rec e")
       (simp_all add: isr_commutes_statement isr_keeps_test blind_Do blind_Test)
qed

lemma handle_edges_simps:
  "handle_edges [] s = s"
  "handle_edges ((now, lvl) # es) s = handle_edges es (button_isr now lvl s)"
  "handle_edges (es @ es') s = handle_edges es' (handle_edges es s)"
  by (simp_all add: handle_edges_def)

lemma button_free_edges:
  "button_free f \<Longrightarrow> f (handle_edges es s) = (fst (f s), handle_edges es (snd (f s)))"
proof (induction es arbitrary: s)
  case Nil
  then show ?case
    by (simp add: handle_edges_simps)
next
  case (Cons x es)
  obtain now lvl where x: "x = (now, lvl)"
    by (cases x)
  from Cons.prems have "f (button_isr now lvl s) = (fst (f s), button_isr now lvl (snd (f s)))"
    by (simp add: button_free_def)
  with Cons.IH [OF Cons.prems, of "button_isr now lvl s"] show ?case
    by (simp add: x handle_edges_simps Cons.IH [OF Cons.prems, of "button_isr now lvl (snd (f s))"])
qed

lemma atomic_edges:
  "blind p \<Longrightarrow> atomic p (handle_edges es s) = handle_edges es (atomic p s)"
proof (induction p arbitrary: s)
  case Done
  then show ?case
    by simp
next
  case (Call f k)
  from Call.prems have f: "button_free f" and k: "blind (k r)" for r
    by (simp_all del: split_paired_All)
  show ?case
    using Call.IH [OF rangeI k] by (simp add: button_free_edges [OF f])
qed

lemma interrupts_move_out:
  "blind p \<Longrightarrow> interrupted sch p s = atomic p (handle_edges (concat sch) s)"
proof (induction sch p s rule: interrupted.induct)
  case (1 p s)
  then show ?case
    by (simp add: handle_edges_simps)
next
  case (2 es sch s)
  then show ?case
    by simp
next
  case (3 es sch f k s)
  from "3.prems" have f: "button_free f" and k: "blind (k r)" for r
    by (simp_all del: split_paired_All)
  have "atomic (Call f k) (handle_edges (concat (es # sch)) s) =
      atomic (k (fst (f (handle_edges es s)))) (handle_edges (concat sch) (snd (f (handle_edges es s))))"
    by (simp add: handle_edges_simps button_free_edges [OF f])
  with "3.IH" [OF k] show ?case
    by simp
qed

lemma interrupted_action:
  "interrupted sch (start_action_prog e) s = start_action e (handle_edges (concat sch) s)"
  "interrupted sch (stop_action_prog e) s = stop_action e (handle_edges (concat sch) s)"
  "interrupted sch (take_photo_prog e) s = take_photo e (handle_edges (concat sch) s)"
  "interrupted sch (recording_loop_prog e) s = recording_loop e (handle_edges (concat sch) s)"
  by (simp_all add: interrupts_move_out blind_actions atomic_actions)

text \<open>
  So the step of an action, taken after the edges, is the action with the edges
  handled inside it.
\<close>

lemma handle_edges_recording: "is_recording (handle_edges es s) = is_recording s"
  by (induction es arbitrary: s) (simp_all add: handle_edges_def isr_keeps_test case_prod_beta)

lemma step_interrupted:
  "snd (micro L_start e v (handle_edges (concat sch) s)) =
     (if cond_hold v \<and> LONG_PRESS_MS \<le> hold_time v
      then interrupted sch (start_action_prog e) s else handle_edges (concat sch) s)"
  "snd (micro L_stop e v (handle_edges (concat sch) s)) =
     (if cond_release v
      then interrupted sch (stop_action_prog e) s else handle_edges (concat sch) s)"
  "snd (micro L_photo e v (handle_edges (concat sch) s)) =
     (if cond_pending v \<and> press_duration v < LONG_PRESS_MS \<and> \<not> is_recording s
      then interrupted sch (take_photo_prog e) s else handle_edges (concat sch) s)"
  "snd (micro L_record e v (handle_edges (concat sch) s)) =
     interrupted sch (recording_loop_prog e) s"
  by (simp_all add: interrupted_action handle_edges_recording)

subsection \<open>Runs of edges and steps\<close>

lemma run_append: "run (xs @ ys) c = run ys (run xs c)"
  by (simp add: run_def)

lemma run_Cons: "run (x # xs) c = run xs (step x c)"
  by (simp add: run_def)

lemma run_Nil: "run [] c = c"
  by (simp add: run_def)

lemma tick_fields:
  "button_view (dev (step (Tick e) m)) = button_view (dev m)"
  "raised (step (Tick e) m) = raised m"
  "pc (step (Tick e) m) = next_loc (pc m)"
  "button_event_pending (dev (step (Tick e) m)) =
     (button_event_pending (dev m) \<and> \<not> (pc m = L_clear \<and> cond_pending (vars m)))"
  "cond_pending (vars (step (Tick e) m)) =
     (if pc m = L_test_pending then button_event_pending (dev m) else cond_pending (vars m))"
  "consumed (step (Tick e) m) = consumed m + (if pc m = L_clear \<and> cond_pending (vars m) then 1 else 0)"
  by (simp_all add: micro_view micro_pending micro_cond_pending)

lemma next_loc_clear: "(next_loc p = L_clear) = (p = L_test_pending)"
  by (cases p) simp_all

lemma ticks_quiet:
  "quiet m \<Longrightarrow>
     quiet (run (map Tick es) m) \<and>
     button_view (dev (run (map Tick es) m)) = button_view (dev m) \<and>
     raised (run (map Tick es) m) = raised m \<and> consumed (run (map Tick es) m) = consumed m \<and>
     pc (run (map Tick es) m) = (next_loc ^^ length es) (pc m)"
proof (induction es arbitrary: m)
  case Nil
  then show ?case
    by (simp add: run_Nil)
next
  case (Cons e es)
  let ?m = "step (Tick e) m"
  have q: "quiet ?m"
    using Cons.prems unfolding quiet_def tick_fields next_loc_clear by auto
  have c: "consumed ?m = consumed m"
    using Cons.prems unfolding quiet_def tick_fields by auto
  from Cons.IH [OF q] c show ?case
    by (simp only: list.map run_Cons tick_fields list.size funpow_Suc_right o_apply)
       (simp add: funpow_swap1)
qed

lemma to_test_next: "p \<noteq> L_test_pending \<Longrightarrow> to_test p = Suc (to_test (next_loc p))"
  by (cases p) simp_all

lemma ticks_serve:
  "waiting m \<Longrightarrow> to_test (pc m) + 2 \<le> length es \<Longrightarrow>
     quiet (run (map Tick es) m) \<and>
     button_view (dev (run (map Tick es) m)) = button_view (dev m) \<and>
     raised (run (map Tick es) m) = raised m \<and> consumed (run (map Tick es) m) = consumed m + 1 \<and>
     pc (run (map Tick es) m) = (next_loc ^^ length es) (pc m)"
proof (induction es arbitrary: m)
  case Nil
  then show ?case
    by simp
next
  case (Cons e es)
  let ?m = "step (Tick e) m"
  show ?case
  proof (cases "pc m = L_test_pending")
    case True
    from Cons.prems(2) obtain e' es' where es: "es = e' # es'"
      by (cases es) auto
    let ?m' = "step (Tick e') ?m"
    have seen: "pc ?m = L_clear" "cond_pending (vars ?m)" "button_event_pending (dev ?m)"
      "consumed ?m = consumed m"
      using Cons.prems(1) True unfolding waiting_def tick_fields by simp_all
    have q: "quiet ?m'" and c: "consumed ?m' = consumed m + 1"
      using seen unfolding quiet_def tick_fields [of e' ?m] by simp_all
    from ticks_quiet [OF q, of es'] c show ?thesis
      by (simp only: es list.map run_Cons tick_fields list.size funpow_Suc_right o_apply)
         (simp add: funpow_swap1)
  next
    case False
    have w: "waiting ?m"
      using Cons.prems(1) False unfolding waiting_def tick_fields next_loc_clear by auto
    have c: "consumed ?m = consumed m"
      using Cons.prems(1) unfolding waiting_def tick_fields by auto
    have l: "to_test (pc ?m) + 2 \<le> length es"
      using Cons.prems(2) to_test_next [OF False] by (simp add: tick_fields)
    from Cons.IH [OF w l] c show ?thesis
      by (simp only: list.map run_Cons tick_fields list.size funpow_Suc_right o_apply)
         (simp add: funpow_swap1)
  qed
qed

lemma edge_fields:
  "pc (step (Edge now lvl) m) = pc m"
  "vars (step (Edge now lvl) m) = vars m"
  "consumed (step (Edge now lvl) m) = consumed m"
  "dev (step (Edge now lvl) m) = button_isr now lvl (dev m)"
  "raised (step (Edge now lvl) m) = raised m + (if \<not> lvl \<and> button_pressed (dev m) then 1 else 0)"
  by simp_all

text \<open>The handler raises the pending flag on the edges that \<open>raised\<close> counts, and on no other.\<close>

lemma edge_raises:
  "\<not> lvl \<and> button_pressed s \<Longrightarrow> button_event_pending (button_isr now lvl s)"
  "\<not> (\<not> lvl \<and> button_pressed s) \<Longrightarrow>
     button_event_pending (button_isr now lvl s) = button_event_pending s"
  by (auto simp: button_isr_def)

lemma cycle_run:
  assumes idle: "\<not> button_pressed (dev m)" "quiet m"
    and gap: "DEBOUNCE_MS < press_at c - button_release_time (dev m)"
    and polled: "to_test ((next_loc ^^ length (ticks_held c)) (pc m)) + 2 \<le> length (ticks_after c)"
  shows "\<not> button_pressed (dev (run (cycle_events c) m)) \<and>
     quiet (run (cycle_events c) m) \<and>
     button_release_time (dev (run (cycle_events c) m)) = release_at c \<and>
     raised (run (cycle_events c) m) = raised m + 1 \<and>
     consumed (run (cycle_events c) m) = consumed m + 1 \<and>
     pc (run (cycle_events c) m) = (next_loc ^^ (length (ticks_held c) + length (ticks_after c))) (pc m)"
proof -
  define m1 where "m1 = step (Edge (press_at c) True) m"
  define m2 where "m2 = run (map Tick (ticks_held c)) m1"
  define m3 where "m3 = step (Edge (release_at c) False) m2"
  define m4 where "m4 = run (map Tick (ticks_after c)) m3"
  have whole: "run (cycle_events c) m = m4"
    by (simp add: cycle_events_def run_append run_Cons run_Nil m1_def m2_def m3_def m4_def)
  have s1: "button_pressed (dev m1)" "quiet m1" "raised m1 = raised m" "consumed m1 = consumed m"
    "pc m1 = pc m"
    using idle gap by (simp_all add: m1_def button_isr_def quiet_def)
  note p2 = ticks_quiet [OF s1(2), of "ticks_held c", folded m2_def]
  note v2 = view_fields [OF p2 [THEN conjunct2, THEN conjunct1]]
  have s3: "\<not> button_pressed (dev m3)" "waiting m3" "button_release_time (dev m3) = release_at c"
    "raised m3 = raised m + 1" "consumed m3 = consumed m"
    "pc m3 = (next_loc ^^ length (ticks_held c)) (pc m)"
    using p2 v2 s1 by (simp_all add: m3_def button_isr_def quiet_def waiting_def)
  have l: "to_test (pc m3) + 2 \<le> length (ticks_after c)"
    using polled s3(6) by simp
  note p4 = ticks_serve [OF s3(2) l, folded m4_def]
  note v4 = view_fields [OF p4 [THEN conjunct2, THEN conjunct1]]
  from p4 v4 s3 show ?thesis
    unfolding whole by (simp add: funpow_add add.commute)
qed

lemma cycles_run:
  "\<not> button_pressed (dev m) \<Longrightarrow> quiet m \<Longrightarrow>
   spaced (button_release_time (dev m)) cycles \<Longrightarrow> served (pc m) cycles \<Longrightarrow>
     \<not> button_pressed (dev (run (concat (map cycle_events cycles)) m)) \<and>
     quiet (run (concat (map cycle_events cycles)) m) \<and>
     raised (run (concat (map cycle_events cycles)) m) = raised m + length cycles \<and>
     consumed (run (concat (map cycle_events cycles)) m) = consumed m + length cycles"
proof (induction cycles arbitrary: m)
  case Nil
  then show ?case
    by (simp add: run_Nil)
next
  case (Cons c cycles)
  let ?m = "run (cycle_events c) m"
  have gap: "DEBOUNCE_MS < press_at c - button_release_time (dev m)"
    and rest: "spaced (release_at c) cycles"
    using Cons.prems(3) by simp_all
  have polled: "to_test ((next_loc ^^ length (ticks_held c)) (pc m)) + 2 \<le> length (ticks_after c)"
    and polled': "served ((next_loc ^^ (length (ticks_held c) + length (ticks_after c))) (pc m)) cycles"
    using Cons.prems(4) by simp_all
  note one = cycle_run [OF Cons.prems(1,2) gap polled]
  have sp: "spaced (button_release_time (dev ?m)) cycles"
    using one rest by simp
  have sv: "served (pc ?m) cycles"
    using one polled' by simp
  from Cons.IH [OF one [THEN conjunct1] one [THEN conjunct2, THEN conjunct1] sp sv] one
  show ?case
    by (simp add: run_append)
qed

lemma clear_first:
  assumes "pc m = L_test_pending" "button_event_pending (dev m)"
  shows "pc (run [Tick e1, Tick e2] m) = L_read_release \<and>
     \<not> button_event_pending (dev (run [Tick e1, Tick e2] m)) \<and>
     consumed (run [Tick e1, Tick e2] m) = consumed m + 1 \<and>
     dev (run [Tick e1, Tick e2] m) = (dev m)\<lparr>button_event_pending := False\<rparr>"
  using assms by (simp add: run_Cons run_Nil)

subsection \<open>A call that is not interrupted\<close>

text \<open>
  Eleven steps from the start of a call, with no edge between them, are one call of
  \<open>process_button_events\<close>.
\<close>

lemma hold_block:
  assumes "pc m = L_test_hold"
  shows "dev (run [Tick e, Tick e, Tick e] m) = long_press_start e (dev m)"
    "pc (run [Tick e, Tick e, Tick e] m) = L_test_release"
    "consumed (run [Tick e, Tick e, Tick e] m) = consumed m"
  using assms by (simp_all add: run_Cons run_Nil long_press_start_def)

lemma release_block:
  assumes "pc m = L_test_release"
  shows "dev (run [Tick e, Tick e] m) = stop_on_release e (dev m)"
    "pc (run [Tick e, Tick e] m) = L_test_pending"
    "consumed (run [Tick e, Tick e] m) = consumed m"
  using assms by (simp_all add: run_Cons run_Nil stop_on_release_def)

lemma pending_block:
  assumes "pc m = L_test_pending"
  shows "dev (run [Tick e, Tick e, Tick e, Tick e, Tick e] m) = consume_event e (dev m)"
    "pc (run [Tick e, Tick e, Tick e, Tick e, Tick e] m) = L_record"
    "consumed (run [Tick e, Tick e, Tick e, Tick e, Tick e] m) =
       consumed m + (if button_event_pending (dev m) then 1 else 0)"
  using assms by (simp_all add: run_Cons run_Nil consume_event_def Let_def)

lemma record_block:
  assumes "pc m = L_record"
  shows "dev (run [Tick e] m) = recording_loop e (dev m)"
    "pc (run [Tick e] m) = L_test_hold"
    "consumed (run [Tick e] m) = consumed m"
  using assms by (simp_all add: run_Cons run_Nil)

lemma call_ticks:
  "replicate 11 (Tick e) =
     [Tick e, Tick e, Tick e] @ [Tick e, Tick e] @ [Tick e, Tick e, Tick e, Tick e, Tick e] @ [Tick e]"
  by (simp add: eval_nat_numeral)

lemma call_steps:
  assumes "pc m = L_test_hold"
  shows "dev (run (replicate 11 (Tick e)) m) = process_button_events e (dev m) \<and>
     pc (run (replicate 11 (Tick e)) m) = L_test_hold \<and>
     consumed (run (replicate 11 (Tick e)) m) =
       consumed m + (if button_event_pending (dev m) then 1 else 0)"
proof -
  note b1 = hold_block [OF assms, of e]
  note b2 = release_block [OF b1(2)]
  note b3 = pending_block [OF b2(2)]
  note b4 = record_block [OF b3(2)]
  have p: "button_event_pending (stop_on_release e (long_press_start e (dev m))) =
      button_event_pending (dev m)"
    by (simp add: stop_on_release_def long_press_start_def action_button)
  show ?thesis
    unfolding call_ticks run_append b4 b3 b2 b1 process_button_events_def p by simp
qed

subsection \<open>Classification of a press\<close>










subsection \<open>Delivery of button events\<close>

text \<open>
  C3, as the code has it. The interrupt may handle an edge between any two steps of
  the polling loop, inside a call of \<open>process_button_events\<close> or between two calls.
  Start with the button released, the flag clear and the loop, wherever it is in its
  call, not about to clear the flag on an earlier reading of it.
  Take any run of press-release pairs in which every edge comes more than 50 ms after
  the edge before it, as the 32-bit clock measures it (the first press more than 50 ms
  after the last recorded release, which is 0 after boot), and in which, after each
  release and before the next press, the loop gets to its test of the pending flag and
  to the statement after it; the loop may make any number of steps during a hold.
  Then the interrupt raises the pending flag once per pair, the loop finds it raised
  and clears it once per pair, and the flag is clear at the end. When the loop tests
  the flag and finds it raised, its next step clears the flag and changes nothing
  else: the release time is read, the duration computed and the photo taken only
  after that.
\<close>

theorem button_events_once:
  "(\<not> button_pressed (dev m) \<and> \<not> button_event_pending (dev m) \<and>
    (pc m = L_clear \<longrightarrow> \<not> cond_pending (vars m)) \<and>
    spaced (button_release_time (dev m)) cycles \<and> served (pc m) cycles \<longrightarrow>
      raised (run (concat (map cycle_events cycles)) m) = raised m + length cycles \<and>
      consumed (run (concat (map cycle_events cycles)) m) = consumed m + length cycles \<and>
      \<not> button_event_pending (dev (run (concat (map cycle_events cycles)) m))) \<and>
   (pc m = L_test_pending \<and> button_event_pending (dev m) \<longrightarrow>
      pc (run [Tick e1, Tick e2] m) = L_read_release \<and>
      consumed (run [Tick e1, Tick e2] m) = consumed m + 1 \<and>
      dev (run [Tick e1, Tick e2] m) = (dev m)\<lparr>button_event_pending := False\<rparr>)"
  using cycles_run [of m cycles] clear_first [of m e1 e2] unfolding quiet_def by blast

theorem button_events_once_witness:
  "raised (run (concat (map cycle_events
      [\<lparr>press_at = 100, ticks_held = [quiet_poll 150], release_at = 200,
        ticks_after = replicate 7 (quiet_poll 201)\<rparr>, press_release 251 1500 11])) fresh) = 2 \<and>
   consumed (run (concat (map cycle_events
      [\<lparr>press_at = 100, ticks_held = [quiet_poll 150], release_at = 200,
        ticks_after = replicate 7 (quiet_poll 201)\<rparr>, press_release 251 1500 11])) fresh) = 2 \<and>
   dev (run [Tick (quiet_poll 1), Tick (quiet_poll 2)]
      (fresh\<lparr>dev := boot\<lparr>button_event_pending := True\<rparr>, pc := L_test_pending\<rparr>)) = boot"
proof -
  let ?cs = "[\<lparr>press_at = 100, ticks_held = [quiet_poll 150], release_at = 200,
        ticks_after = replicate 7 (quiet_poll 201)\<rparr>, press_release 251 1500 11]"
  let ?m = "fresh\<lparr>dev := boot\<lparr>button_event_pending := True\<rparr>, pc := L_test_pending\<rparr>"
  have sp: "spaced (button_release_time (dev fresh)) ?cs"
    by (simp add: fresh_def boot_def press_release_def DEBOUNCE_MS_def)
  have sv: "served (pc fresh) ?cs"
    by (simp add: fresh_def press_release_def eval_nat_numeral)
  have h: "\<not> button_pressed (dev fresh) \<and> \<not> button_event_pending (dev fresh) \<and>
      (pc fresh = L_clear \<longrightarrow> \<not> cond_pending (vars fresh)) \<and>
      spaced (button_release_time (dev fresh)) ?cs \<and> served (pc fresh) ?cs"
    using sp sv by (simp add: fresh_def boot_def)
  have h': "pc ?m = L_test_pending \<and> button_event_pending (dev ?m)"
    by simp
  have z: "raised fresh + length ?cs = 2" "consumed fresh + length ?cs = 2"
    by (simp_all add: fresh_def)
  have b: "(dev ?m)\<lparr>button_event_pending := False\<rparr> = boot"
    by (simp add: boot_def)
  from button_events_once [of fresh ?cs] h
  have "raised (run (concat (map cycle_events ?cs)) fresh) = raised fresh + length ?cs \<and>
      consumed (run (concat (map cycle_events ?cs)) fresh) = consumed fresh + length ?cs \<and>
      \<not> button_event_pending (dev (run (concat (map cycle_events ?cs)) fresh))"
    by (rule conjunct1 [THEN mp])
  moreover from button_events_once [of ?m "[]" "quiet_poll 1" "quiet_poll 2"] h'
  have "pc (run [Tick (quiet_poll 1), Tick (quiet_poll 2)] ?m) = L_read_release \<and>
      consumed (run [Tick (quiet_poll 1), Tick (quiet_poll 2)] ?m) = consumed ?m + 1 \<and>
      dev (run [Tick (quiet_poll 1), Tick (quiet_poll 2)] ?m) = (dev ?m)\<lparr>button_event_pending := False\<rparr>"
    by (rule conjunct2 [THEN mp])
  ultimately show ?thesis
    unfolding z b by simp
qed

text \<open>
  C3 as stated fails at the boundary: with edges at 100, 200, 250 and 300 ms, each at
  least 50 ms after the one before, and a whole call of the loop after each release,
  the press at 250 comes exactly 50 ms after the release at 200 and the handler, which
  asks for more than 50, drops it; the release at 300 then finds the button not
  pressed. Two pairs raise and deliver one event.
\<close>

theorem button_events_once_counterexample:
  "spaced_at_least 0 [press_release 100 200 11, press_release 250 300 11] \<and>
   served L_test_hold [press_release 100 200 11, press_release 250 300 11] \<and>
   raised (run (concat (map cycle_events [press_release 100 200 11, press_release 250 300 11])) fresh) = 1 \<and>
   consumed (run (concat (map cycle_events [press_release 100 200 11, press_release 250 300 11])) fresh) = 1"
proof -
  let ?m1 = "run (cycle_events (press_release 100 200 11)) fresh"
  have sp: "spaced_at_least 0 [press_release 100 200 11, press_release 250 300 11]"
    by (simp add: press_release_def DEBOUNCE_MS_def)
  have sv: "served L_test_hold [press_release 100 200 11, press_release 250 300 11]"
    by (simp add: press_release_def eval_nat_numeral)
  have i: "\<not> button_pressed (dev fresh)" "quiet fresh"
    "DEBOUNCE_MS < press_at (press_release 100 200 11) - button_release_time (dev fresh)"
    "to_test ((next_loc ^^ length (ticks_held (press_release 100 200 11))) (pc fresh)) + 2
       \<le> length (ticks_after (press_release 100 200 11))"
    by (simp_all add: fresh_def boot_def press_release_def DEBOUNCE_MS_def quiet_def no_locals_def)
  note one = cycle_run [OF i]
  have r: "button_release_time (dev ?m1) = 200" "raised ?m1 = 1" "consumed ?m1 = 1"
    using one by (simp_all add: press_release_def fresh_def)
  let ?m2 = "step (Edge 250 True) ?m1"
  have press_lost: "dev ?m2 = dev ?m1" "raised ?m2 = 1" "consumed ?m2 = 1" "pc ?m2 = pc ?m1"
    "vars ?m2 = vars ?m1"
    using one r by (simp_all add: button_isr_def DEBOUNCE_MS_def)
  let ?m3 = "step (Edge 300 False) ?m2"
  have release_lost: "dev ?m3 = dev ?m1" "raised ?m3 = 1" "consumed ?m3 = 1" "pc ?m3 = pc ?m1"
    "vars ?m3 = vars ?m1"
    using one press_lost by (simp_all add: button_isr_def)
  have idle: "quiet ?m3"
    using one unfolding quiet_def release_lost by simp
  from ticks_quiet [OF idle, of "replicate 11 (quiet_poll 301)"] release_lost
  have "raised (run (map Tick (replicate 11 (quiet_poll 301))) ?m3) = 1"
    "consumed (run (map Tick (replicate 11 (quiet_poll 301))) ?m3) = 1"
    by simp_all
  moreover have "run (concat (map cycle_events [press_release 100 200 11, press_release 250 300 11])) fresh =
      run (map Tick (replicate 11 (quiet_poll 301))) ?m3"
    by (simp add: run_append run_Cons run_Nil cycle_events_def press_release_def)
  ultimately show ?thesis
    using sp sv by simp
qed

text \<open>
  The flag holds one event: when the loop makes no step between a release and the
  next pair, the two releases are found as one.
\<close>

lemma unserved_releases_merge:
  "spaced 0 [press_release 100 200 0, press_release 300 400 11] \<and>
   raised (run (concat (map cycle_events [press_release 100 200 0, press_release 300 400 11])) fresh) = 2 \<and>
   consumed (run (concat (map cycle_events [press_release 100 200 0, press_release 300 400 11])) fresh) = 1"
proof -
  let ?m = "run [Edge 100 True, Edge 200 False, Edge 300 True, Edge 400 False] fresh"
  have sp: "spaced 0 [press_release 100 200 0, press_release 300 400 11]"
    by (simp add: press_release_def DEBOUNCE_MS_def)
  have e: "waiting ?m" "raised ?m = 2" "consumed ?m = 0" "pc ?m = L_test_hold"
    by (simp_all add: run_Cons run_Nil fresh_def boot_def button_isr_def DEBOUNCE_MS_def
        waiting_def)
  have l: "to_test (pc ?m) + 2 \<le> length (replicate 11 (quiet_poll 401))"
    unfolding e by simp
  from ticks_serve [OF e(1) l] e
  have "raised (run (map Tick (replicate 11 (quiet_poll 401))) ?m) = 2"
    "consumed (run (map Tick (replicate 11 (quiet_poll 401))) ?m) = 1"
    by simp_all
  moreover have "run (concat (map cycle_events [press_release 100 200 0, press_release 300 400 11])) fresh =
      run (map Tick (replicate 11 (quiet_poll 401))) ?m"
    by (simp add: run_append run_Cons run_Nil cycle_events_def press_release_def)
  ultimately show ?thesis
    using sp by simp
qed

section \<open>Properties of still capture during a recording\<close>

lemma effect_only [simp]:
  "is_recording (emit ev s) = is_recording s"
  "is_recording (log_call fmt args s) = is_recording s"
  "is_recording (delay ms s) = is_recording s"
  "is_recording (set_flash on s) = is_recording s"
  "is_recording (set_stream_mode s) = is_recording s"
  "is_recording (set_capture_mode s) = is_recording s"
  "is_recording (set_capture_mode_v23 s) = is_recording s"
  "is_recording (esp_camera_fb_get s) = is_recording s"
  "is_recording (esp_camera_fb_return s) = is_recording s"
  "video_file (emit ev s) = video_file s"
  "video_file (log_call fmt args s) = video_file s"
  "video_file (delay ms s) = video_file s"
  "video_file (set_flash on s) = video_file s"
  "video_file (set_stream_mode s) = video_file s"
  "video_file (set_capture_mode s) = video_file s"
  "video_file (set_capture_mode_v23 s) = video_file s"
  "video_file (esp_camera_fb_get s) = video_file s"
  "video_file (esp_camera_fb_return s) = video_file s"
  "video_frame_count (emit ev s) = video_frame_count s"
  "video_frame_count (log_call fmt args s) = video_frame_count s"
  "video_frame_count (delay ms s) = video_frame_count s"
  "video_frame_count (set_flash on s) = video_frame_count s"
  "video_frame_count (set_stream_mode s) = video_frame_count s"
  "video_frame_count (set_capture_mode s) = video_frame_count s"
  "video_frame_count (set_capture_mode_v23 s) = video_frame_count s"
  "video_frame_count (esp_camera_fb_get s) = video_frame_count s"
  "video_frame_count (esp_camera_fb_return s) = video_frame_count s"
  "recording_start_ms (emit ev s) = recording_start_ms s"
  "recording_start_ms (log_call fmt args s) = recording_start_ms s"
  "recording_start_ms (delay ms s) = recording_start_ms s"
  "recording_start_ms (set_flash on s) = recording_start_ms s"
  "recording_start_ms (set_stream_mode s) = recording_start_ms s"
  "recording_start_ms (set_capture_mode s) = recording_start_ms s"
  "recording_start_ms (set_capture_mode_v23 s) = recording_start_ms s"
  "recording_start_ms (esp_camera_fb_get s) = recording_start_ms s"
  "recording_start_ms (esp_camera_fb_return s) = recording_start_ms s"
  "sd_available (emit ev s) = sd_available s"
  "sd_available (log_call fmt args s) = sd_available s"
  "sd_available (delay ms s) = sd_available s"
  "sd_available (set_flash on s) = sd_available s"
  "sd_available (set_stream_mode s) = sd_available s"
  "sd_available (set_capture_mode s) = sd_available s"
  "sd_available (set_capture_mode_v23 s) = sd_available s"
  "sd_available (esp_camera_fb_get s) = sd_available s"
  "sd_available (esp_camera_fb_return s) = sd_available s"
  "eyetrack_counter (emit ev s) = eyetrack_counter s"
  "eyetrack_counter (log_call fmt args s) = eyetrack_counter s"
  "eyetrack_counter (delay ms s) = eyetrack_counter s"
  "eyetrack_counter (set_flash on s) = eyetrack_counter s"
  "eyetrack_counter (set_stream_mode s) = eyetrack_counter s"
  "eyetrack_counter (set_capture_mode s) = eyetrack_counter s"
  "eyetrack_counter (set_capture_mode_v23 s) = eyetrack_counter s"
  "eyetrack_counter (esp_camera_fb_get s) = eyetrack_counter s"
  "eyetrack_counter (esp_camera_fb_return s) = eyetrack_counter s"
  by (simp_all add: emit_def log_call_def delay_def set_flash_def set_stream_mode_def
      set_capture_mode_def set_capture_mode_v23_def esp_camera_fb_get_def esp_camera_fb_return_def)

lemma effect_trace [simp]:
  "trace (emit ev s) = trace s @ [ev]"
  "trace (log_call fmt args s) = trace s @ [LogPushf fmt args]"
  "trace (delay ms s) = trace s @ [Delay ms]"
  "trace (set_flash on s) = trace s @ [Flash on]"
  "trace (set_stream_mode s) = trace s @ [SetStreamMode]"
  "trace (set_capture_mode s) = trace s @ [SetCaptureMode]"
  "trace (set_capture_mode_v23 s) = trace s @ [SetCaptureMode, Delay 10]"
  "trace (esp_camera_fb_get s) = trace s @ [CamGet]"
  "trace (esp_camera_fb_return s) = trace s @ [CamReturn]"
  by (simp_all add: emit_def log_call_def delay_def set_flash_def set_stream_mode_def
      set_capture_mode_def set_capture_mode_v23_def esp_camera_fb_get_def esp_camera_fb_return_def)

lemma acquisitions_simps [simp]:
  "acquisitions [] = 0"
  "acquisitions (e # es) = (if e = CamGet then 1 else 0) + acquisitions es"
  "acquisitions (xs @ ys) = acquisitions xs + acquisitions ys"
  by (simp_all add: acquisitions_def)

lemma added_append [simp]: "trace s' = trace s @ es \<Longrightarrow> added s s' = es"
  by (simp add: added_def)

lemma capture_handler_trace:
  "snd (capture_handler t0 fb1 fb2 send t1 s) =
     s\<lparr>trace := trace s @ [SetCaptureMode, Delay 10, CamGet] @
        (if fb1 \<noteq> None then [CamReturn] else []) @ [CamGet] @
        (case fb2 of
           None \<Rightarrow> [LogPushf ''[cap] failed'' [], SetStreamMode, HttpSend500]
         | Some fb \<Rightarrow> [HttpSendImage (buf fb),
             LogPushf ''[cap] %ux%u %uB %ums'' [N (width fb), N (height fb), N (len fb), U (t1 - t0)],
             CamReturn, SetStreamMode])\<rparr>"
  by (simp add: capture_handler_def Let_def emit_def log_call_def delay_def set_capture_mode_def
      set_stream_mode_def esp_camera_fb_get_def esp_camera_fb_return_def split: option.splits)

lemma capture_handler_result:
  "fst (capture_handler t0 fb1 fb2 send t1 s) = (if fb2 = None then ESP_FAIL else send)"
  by (simp add: capture_handler_def Let_def split: option.splits)

lemma save_eyetrack_fields [simp]:
  "is_recording (snd (save_eyetrack_photo fbp ok acc s)) = is_recording s"
  "video_file (snd (save_eyetrack_photo fbp ok acc s)) = video_file s"
  "video_frame_count (snd (save_eyetrack_photo fbp ok acc s)) = video_frame_count s"
  "recording_start_ms (snd (save_eyetrack_photo fbp ok acc s)) = recording_start_ms s"
  "acquisitions (trace (snd (save_eyetrack_photo fbp ok acc s))) = acquisitions (trace s)"
  by (simp_all add: save_eyetrack_photo_def Let_def emit_def log_call_def sd_open_write_def
      file_write_def acquisitions_def split: option.splits)

text \<open>
  C1, as the code has it. \<open>capture_handler\<close> reads no state at all: in every state, also
  with a recording open, it acquires two frames, answers with the second one (with
  status 500 only when that acquisition returns no frame) and changes nothing but the
  trace, so the recording state is as it was. \<open>eyetrack_capture_handler\<close> of the v2.3
  revision checks the card only: with the card available it acquires two frames whether
  or not a recording is open, and leaves the recording flag, file handle, frame counter
  and start time as they were.
\<close>

theorem still_capture_ignores_recording:
  "(let (r, s') = capture_handler t0 fb1 fb2 send t1 s
    in acquisitions (added s s') = 2 \<and>
       r = (if fb2 = None then ESP_FAIL else send) \<and>
       (HttpSend500 \<in> set (added s s')) = (fb2 = None) \<and>
       (\<forall>fb. fb2 = Some fb \<longrightarrow> HttpSendImage (buf fb) \<in> set (added s s')) \<and>
       s' = s\<lparr>trace := trace s'\<rparr>) \<and>
   (sd_available s \<longrightarrow>
      (let (r, s') = eyetrack_capture_handler fb1 fb2 open_ok accepted s
       in acquisitions (trace s') = acquisitions (trace s) + 2 \<and> is_recording s' = is_recording s \<and>
          video_file s' = video_file s \<and> video_frame_count s' = video_frame_count s \<and>
          recording_start_ms s' = recording_start_ms s))"
proof -
  let ?s = "snd (capture_handler t0 fb1 fb2 send t1 s)"
  have a: "acquisitions (added s ?s) = 2"
    unfolding capture_handler_trace by (simp add: added_def acquisitions_def split: option.splits)
  have b: "(HttpSend500 \<in> set (added s ?s)) = (fb2 = None)"
    unfolding capture_handler_trace by (simp add: added_def split: option.splits)
  have c: "fb2 = Some fb \<Longrightarrow> HttpSendImage (buf fb) \<in> set (added s ?s)" for fb
    unfolding capture_handler_trace by (simp add: added_def)
  have d: "?s = s\<lparr>trace := trace ?s\<rparr>"
    unfolding capture_handler_trace by simp
  have part1: "let (r, s') = capture_handler t0 fb1 fb2 send t1 s
    in acquisitions (added s s') = 2 \<and>
       r = (if fb2 = None then ESP_FAIL else send) \<and>
       (HttpSend500 \<in> set (added s s')) = (fb2 = None) \<and>
       (\<forall>fb. fb2 = Some fb \<longrightarrow> HttpSendImage (buf fb) \<in> set (added s s')) \<and>
       s' = s\<lparr>trace := trace s'\<rparr>"
    using a b c d capture_handler_result [of t0 fb1 fb2 send t1 s]
    by (simp add: case_prod_beta)
  have part2: "let (r, s') = eyetrack_capture_handler fb1 fb2 open_ok accepted s
       in acquisitions (trace s') = acquisitions (trace s) + 2 \<and> is_recording s' = is_recording s \<and>
          video_file s' = video_file s \<and> video_frame_count s' = video_frame_count s \<and>
          recording_start_ms s' = recording_start_ms s"
    if sd: "sd_available s"
    using sd
    by (simp add: eyetrack_capture_handler_def Let_def case_prod_beta split: option.splits)
  from part1 part2 show ?thesis
    by blast
qed

lemma recording_now_fields:
  "is_recording recording_now" "sd_available recording_now"
  by (simp_all add: recording_now_def start_video_recording_def Let_def log_call_def emit_def
      sd_open_write_def boot_def)

theorem still_capture_ignores_recording_witness:
  "sd_available recording_now \<and> is_recording recording_now \<and>
   is_recording (snd (eyetrack_capture_handler None (Some sample_frame) True 4 recording_now)) \<and>
   acquisitions (trace (snd (eyetrack_capture_handler None (Some sample_frame) True 4 recording_now))) =
     acquisitions (trace recording_now) + 2 \<and>
   acquisitions (added recording_now
     (snd (capture_handler 2000 None (Some sample_frame) ESP_OK 2050 recording_now))) = 2 \<and>
   HttpSendImage (buf sample_frame) \<in> set (added recording_now
     (snd (capture_handler 2000 None (Some sample_frame) ESP_OK 2050 recording_now))) \<and>
   HttpSend500 \<notin> set (added recording_now
     (snd (capture_handler 2000 None (Some sample_frame) ESP_OK 2050 recording_now)))"
proof -
  have h: "sd_available recording_now"
    by (rule recording_now_fields)
  from still_capture_ignores_recording [of 2000 None "Some sample_frame" ESP_OK 2050 recording_now True 4]
  have c1: "let (r, s') = capture_handler 2000 None (Some sample_frame) ESP_OK 2050 recording_now
    in acquisitions (added recording_now s') = 2 \<and>
       r = (if Some sample_frame = None then ESP_FAIL else ESP_OK) \<and>
       (HttpSend500 \<in> set (added recording_now s')) = (Some sample_frame = None) \<and>
       (\<forall>fb. Some sample_frame = Some fb \<longrightarrow> HttpSendImage (buf fb) \<in> set (added recording_now s')) \<and>
       s' = recording_now\<lparr>trace := trace s'\<rparr>"
    by (rule conjunct1)
  from still_capture_ignores_recording [of 2000 None "Some sample_frame" ESP_OK 2050 recording_now True 4] h
  have c2: "let (r, s') = eyetrack_capture_handler None (Some sample_frame) True 4 recording_now
       in acquisitions (trace s') = acquisitions (trace recording_now) + 2 \<and>
          is_recording s' = is_recording recording_now \<and>
          video_file s' = video_file recording_now \<and>
          video_frame_count s' = video_frame_count recording_now \<and>
          recording_start_ms s' = recording_start_ms recording_now"
    by (rule conjunct2 [THEN mp])
  from c1 c2 h recording_now_fields(1) show ?thesis
    by (simp add: case_prod_beta)
qed

text \<open>
  C1 as stated fails: with a recording open, the capture handler is not rejected. It
  acquires two frames and sends the image, while the recording flag stays set.
\<close>

theorem still_capture_while_recording_counterexample:
  "is_recording recording_now \<and>
   fst (capture_handler 2000 (Some sample_frame) (Some sample_frame) ESP_OK 2050 recording_now) = ESP_OK \<and>
   added recording_now (snd (capture_handler 2000 (Some sample_frame) (Some sample_frame) ESP_OK 2050 recording_now)) =
     [SetCaptureMode, Delay 10, CamGet, CamReturn, CamGet, HttpSendImage ''JPEG'',
      LogPushf ''[cap] %ux%u %uB %ums'' [N 640, N 480, N 4, U 50], CamReturn, SetStreamMode] \<and>
   acquisitions (added recording_now
     (snd (capture_handler 2000 (Some sample_frame) (Some sample_frame) ESP_OK 2050 recording_now))) = 2 \<and>
   is_recording (snd (capture_handler 2000 (Some sample_frame) (Some sample_frame) ESP_OK 2050 recording_now))"
  unfolding capture_handler_trace capture_handler_result
  by (simp add: recording_now_fields added_def sample_frame_def len_def)

end
